theory Spec2Isabelle
  imports Main
begin

section \<open>Data model of \<open>tomabechi_algorithm.py\<close>\<close>

text \<open>
  Python objects are mutable and compared by reference (\<open>is\<close>), so nodes live in an
  explicit store: the heap is a list of node records and a node reference is the index of
  its record. Allocating a node appends to the list; nothing is ever freed.

  Arc objects are never mutated by the source and arc lists are only mutated through
  \<open>comp_arc_list.extend\<close> on a list that belongs to one node (the default factory and
  \<open>list.copy()\<close> give every node its own list), so arcs and arc lists are values. The
  attribute \<open>id\<close> that \<open>__post_init__\<close> adds is the identity of the object, here the
  reference itself.
\<close>

datatype NodeType = ATOMIC | LEAF | COMPLEX

type_synonym addr = nat

record Arc =
  label :: string
  val :: addr

record DGNode =
  node_type :: NodeType
  arc_list :: "Arc list"
  comp_arc_list :: "Arc list"
  forward :: "addr option"
  copy :: "addr option"
  generation :: int
  mark :: "unit option"
  name :: "string option"

text \<open>
  The exceptions of the source. \<open>RecursionError\<close> is raised by the interpreter when calls
  nest deeper than its recursion limit. \<open>InvalidReference\<close> has no counterpart in Python,
  where a reference always designates a live object: it is what the model answers when it is
  asked to read an address outside the heap, so that no function reads \<open>xs ! i\<close> out of
  range.
\<close>

datatype error =
  UnificationFailure | ValueError | TypeError | RecursionError | InvalidReference

text \<open>
  The state: the heap, the singleton \<open>UnificationCounter\<close>, the two fields of the one
  \<open>TomabechiUnifier\<close> instance, and \<open>compare_depth\<close>: how many comparisons of two nodes by
  the dataclass \<open>==\<close> the interpreter lets nest inside one another before it raises
  \<open>RecursionError\<close>. The source does not fix that number, it is what the recursion limit
  of the interpreter (\<open>sys.getrecursionlimit()\<close>, 1000 unless changed) leaves, so it is a
  parameter of the model. It is one number for every call of \<open>dereference\<close>: that the calls
  of \<open>unify_core\<close> which are open at that moment take from it is not followed, and every
  statement below that needs room for comparisons says so as a hypothesis on the call of
  \<open>dereference\<close> concerned.
\<close>

record state =
  heap :: "DGNode list"
  counter :: int
  structure_sharing :: bool
  shared_structures :: "addr set"
  compare_depth :: nat

text \<open>
  \<open>UnificationCounter.__new__\<close> sets the counter to 10 when the singleton is created, once
  per process. \<open>TomabechiUnifier.__init__\<close> takes the existing counter and starts with an
  empty \<open>shared_structures\<close>.
\<close>

definition UnificationCounter_first :: int where
  "UnificationCounter_first = 10"

definition TomabechiUnifier_init :: "bool \<Rightarrow> state \<Rightarrow> state" where
  "TomabechiUnifier_init sharing s =
     s\<lparr>structure_sharing := sharing, shared_structures := {}\<rparr>"

definition next_generation :: "state \<Rightarrow> int \<times> state" where
  "next_generation s = (counter s + 1, s\<lparr>counter := counter s + 1\<rparr>)"

text \<open>The dataclass constructor with its defaults, and allocation of the new object.\<close>

definition DGNode_init :: "NodeType \<Rightarrow> Arc list \<Rightarrow> Arc list \<Rightarrow> string option \<Rightarrow> DGNode" where
  "DGNode_init t arcs comp_arcs nm =
     \<lparr>node_type = t, arc_list = arcs, comp_arc_list = comp_arcs, forward = None,
      copy = None, generation = 0, mark = None, name = nm\<rparr>"

definition alloc :: "DGNode \<Rightarrow> state \<Rightarrow> addr \<times> state" where
  "alloc n s = (length (heap s), s\<lparr>heap := heap s @ [n]\<rparr>)"

definition create_leaf_node :: "string \<Rightarrow> state \<Rightarrow> addr \<times> state" where
  "create_leaf_node nm s = alloc (DGNode_init LEAF [] [] (Some nm)) s"

definition create_complex_node :: "Arc list \<Rightarrow> state \<Rightarrow> addr \<times> state" where
  "create_complex_node arcs s = alloc (DGNode_init COMPLEX arcs [] None) s"

definition is_leaf_node :: "DGNode \<Rightarrow> bool" where
  "is_leaf_node node = (node_type node = LEAF)"

definition is_complex_node :: "DGNode \<Rightarrow> bool" where
  "is_complex_node node = (node_type node = COMPLEX)"

subsection \<open>Arc set operations\<close>

fun find_arc :: "string \<Rightarrow> Arc list \<Rightarrow> Arc option" where
  "find_arc l [] = None"
| "find_arc l (arc # rest) = (if label arc = l then Some arc else find_arc l rest)"

text \<open>
  \<open>intersect_arcs\<close> builds the set of the labels of its first argument and then walks its
  second argument, appending to \<open>shared\<close>; \<open>complement_arcs\<close> builds the set of the labels
  of its second argument and walks its first. The loops carry the list built so far.
\<close>

fun intersect_loop :: "string set \<Rightarrow> Arc list \<Rightarrow> Arc list \<Rightarrow> Arc list" where
  "intersect_loop labels1 [] shared = shared"
| "intersect_loop labels1 (arc2 # rest) shared =
     (if label arc2 \<in> labels1 then intersect_loop labels1 rest (shared @ [arc2])
      else intersect_loop labels1 rest shared)"

definition intersect_arcs :: "Arc list \<Rightarrow> Arc list \<Rightarrow> Arc list" where
  "intersect_arcs arcs1 arcs2 = intersect_loop (set (map label arcs1)) arcs2 []"

fun complement_loop :: "string set \<Rightarrow> Arc list \<Rightarrow> Arc list \<Rightarrow> Arc list" where
  "complement_loop labels2 [] complement = complement"
| "complement_loop labels2 (arc1 # rest) complement =
     (if label arc1 \<notin> labels2 then complement_loop labels2 rest (complement @ [arc1])
      else complement_loop labels2 rest complement)"

definition complement_arcs :: "Arc list \<Rightarrow> Arc list \<Rightarrow> Arc list" where
  "complement_arcs arcs1 arcs2 = complement_loop (set (map label arcs2)) arcs1 []"

subsection \<open>Dereference\<close>

text \<open>
  The test \<open>current in path\<close> of \<open>dereference\<close> compares each node of the list with
  \<open>current\<close>, by identity first and by \<open>==\<close> second. \<open>DGNode\<close> is a dataclass, so its
  \<open>==\<close> compares the tuples of the fields in the order of their declaration and stops at
  the first pair that differs:
  \<^item> \<open>node_type\<close>, members of an enumeration;
  \<^item> \<open>arc_list\<close> and \<open>comp_arc_list\<close>, lists of \<open>Arc\<close>, whose \<open>__eq__\<close> compares the labels
    only: two lists are equal when they have the same labels in the same order;
  \<^item> \<open>forward\<close> and \<open>copy\<close>: two absent values are equal, an absent value and a node are
    not, two references to the same node are equal (the comparison of tuples tests identity
    first), and two different nodes are compared by \<open>==\<close> again, one comparison deeper;
  \<^item> \<open>generation\<close>, \<open>mark\<close>, \<open>name\<close>.
  The first argument of \<open>DGNode_eq\<close> is the number of comparisons that may still nest.
\<close>

definition field_eq ::
  "(addr \<Rightarrow> addr \<Rightarrow> error + bool) \<Rightarrow> addr option \<Rightarrow> addr option \<Rightarrow> error + bool" where
  "field_eq eq x y =
     (case x of
        None \<Rightarrow> (case y of None \<Rightarrow> Inr True | Some q \<Rightarrow> Inr False)
      | Some p \<Rightarrow> (case y of None \<Rightarrow> Inr False
                   | Some q \<Rightarrow> if p = q then Inr True else eq p q))"

primrec DGNode_eq :: "nat \<Rightarrow> DGNode list \<Rightarrow> addr \<Rightarrow> addr \<Rightarrow> error + bool" where
  "DGNode_eq 0 h a b = Inl RecursionError"
| "DGNode_eq (Suc d) h a b =
     (if \<not> (a < length h \<and> b < length h) then Inl InvalidReference
      else if node_type (h ! a) \<noteq> node_type (h ! b) then Inr False
      else if map label (arc_list (h ! a)) \<noteq> map label (arc_list (h ! b)) then Inr False
      else if map label (comp_arc_list (h ! a)) \<noteq> map label (comp_arc_list (h ! b))
        then Inr False
      else
        (case field_eq (DGNode_eq d h) (forward (h ! a)) (forward (h ! b)) of
           Inl e \<Rightarrow> Inl e
         | Inr fwd_equal \<Rightarrow>
             if \<not> fwd_equal then Inr False
             else
               (case field_eq (DGNode_eq d h) (copy (h ! a)) (copy (h ! b)) of
                  Inl e \<Rightarrow> Inl e
                | Inr copy_equal \<Rightarrow>
                    if \<not> copy_equal then Inr False
                    else Inr (generation (h ! a) = generation (h ! b) \<and>
                              mark (h ! a) = mark (h ! b) \<and> name (h ! a) = name (h ! b)))))"

text \<open>\<open>current in path\<close>: the list is searched from its first element.\<close>

fun in_path :: "nat \<Rightarrow> DGNode list \<Rightarrow> addr \<Rightarrow> addr list \<Rightarrow> error + bool" where
  "in_path d h current [] = Inr False"
| "in_path d h current (item # rest) =
     (if item = current then Inr True
      else
        (case DGNode_eq d h item current of
           Inl e \<Rightarrow> Inl e
         | Inr equal \<Rightarrow> if equal then Inr True else in_path d h current rest))"

text \<open>
  The \<open>while\<close> loop of \<open>dereference\<close>, with the list \<open>path\<close> of the nodes already left
  behind. The loop always ends: each round adds a node of the heap to \<open>path\<close> that was not
  there.
\<close>

function deref_walk ::
  "nat \<Rightarrow> DGNode list \<Rightarrow> addr list \<Rightarrow> addr \<Rightarrow> error + (addr list \<times> addr)" where
  "deref_walk d h path current =
     (if current < length h then
        (case forward (h ! current) of
           None \<Rightarrow> Inr (path, current)
         | Some nxt \<Rightarrow>
             (case in_path d h current path of
                Inl e \<Rightarrow> Inl e
              | Inr found \<Rightarrow>
                  if found then Inl ValueError
                  else deref_walk d h (path @ [current]) nxt))
      else Inl InvalidReference)"
  by pat_completeness auto
termination
proof (relation "measure (\<lambda>(d, h, path, current). card ({..<length h} - set path))")
  show "wf (measure (\<lambda>(d, h, path, current). card ({..<length h} - set path)))"
    by simp
next
  fix d :: nat and h :: "DGNode list" and path :: "addr list" and current :: addr
    and nxt :: addr and found :: bool
  assume lt: "current < length h" and res: "in_path d h current path = Inr found"
    and nf: "\<not> found"
  have "in_path d h current p = Inr False \<Longrightarrow> current \<notin> set p" for p
    by (induction p) (auto split: sum.splits if_splits)
  then have notin: "current \<notin> set path" using res nf by simp
  have "{..<length h} - set (path @ [current]) \<subset> {..<length h} - set path"
    using lt notin by auto
  then have "card ({..<length h} - set (path @ [current])) < card ({..<length h} - set path)"
    by (intro psubset_card_mono) simp_all
  then show "((d, h, path @ [current], nxt), (d, h, path, current))
      \<in> measure (\<lambda>(d, h, path, current). card ({..<length h} - set path))"
    by simp
qed

declare deref_walk.simps [simp del]

text \<open>Path compression: the \<open>for\<close> loop over \<open>path\<close>.\<close>

fun compress :: "DGNode list \<Rightarrow> addr list \<Rightarrow> addr \<Rightarrow> DGNode list" where
  "compress h [] current = h"
| "compress h (node_in_path # rest) current =
     compress (h[node_in_path := (h ! node_in_path)\<lparr>forward := Some current\<rparr>]) rest current"

definition dereference :: "state \<Rightarrow> addr \<Rightarrow> error + (addr \<times> state)" where
  "dereference s node =
     (case deref_walk (compare_depth s) (heap s) [] node of
        Inl e \<Rightarrow> Inl e
      | Inr (path, current) \<Rightarrow> Inr (current, s\<lparr>heap := compress (heap s) path current\<rparr>))"

subsection \<open>Unify-core\<close>

definition upd :: "state \<Rightarrow> addr \<Rightarrow> (DGNode \<Rightarrow> DGNode) \<Rightarrow> state" where
  "upd s a f = s\<lparr>heap := (heap s)[a := f (heap s ! a)]\<rparr>"

text \<open>
  The \<open>for arc in shared_arcs\<close> loop of \<open>unify_core\<close>; \<open>rec\<close> is the recursive call.
  An Arc object is always true in a condition, so \<open>if arc1:\<close> asks whether \<open>find_arc\<close>
  found one. The value returned by the recursive call is dropped; an exception raised by
  it leaves the loop, with the heap as it is at that moment.
\<close>

fun for_shared ::
  "(state \<Rightarrow> addr \<Rightarrow> addr \<Rightarrow> ((error + bool) \<times> state) option) \<Rightarrow>
     state \<Rightarrow> addr \<Rightarrow> Arc list \<Rightarrow> ((error + unit) \<times> state) option" where
  "for_shared rec s dg1 [] = Some (Inr (), s)"
| "for_shared rec s dg1 (arc # rest) =
     (case find_arc (label arc) (arc_list (heap s ! dg1)) of
        None \<Rightarrow> for_shared rec s dg1 rest
      | Some arc1 \<Rightarrow>
          (case rec s (val arc1) (val arc) of
             None \<Rightarrow> None
           | Some (Inl e, s') \<Rightarrow> Some (Inl e, s')
           | Some (Inr b, s') \<Rightarrow> for_shared rec s' dg1 rest))"

text \<open>
  The two groups of assignments with which \<open>unify_core\<close> ends. For a leaf on one side:
  \<^verbatim>\<open>leaf.forward = target; leaf.generation = self.counter.next_generation()\<close>.
  For two nodes that are not leaves, on both paths of \<open>if not shared_arcs\<close>:
  \<^verbatim>\<open>dg1.comp_arc_list.extend(new_arcs); dg1.generation = self.counter.next_generation();
  dg1.forward = dg2\<close>.
\<close>

definition forward_leaf :: "state \<Rightarrow> addr \<Rightarrow> addr \<Rightarrow> state" where
  "forward_leaf s leaf target =
     (let s1 = upd s leaf (\<lambda>n. n\<lparr>forward := Some target\<rparr>);
          (g, s2) = next_generation s1
      in upd s2 leaf (\<lambda>n. n\<lparr>generation := g\<rparr>))"

definition merge_complement :: "state \<Rightarrow> addr \<Rightarrow> addr \<Rightarrow> Arc list \<Rightarrow> state" where
  "merge_complement s dg1 dg2 new_arcs =
     (let s1 = upd s dg1 (\<lambda>n. n\<lparr>comp_arc_list := comp_arc_list n @ new_arcs\<rparr>);
          (g, s2) = next_generation s1;
          s3 = upd s2 dg1 (\<lambda>n. n\<lparr>generation := g\<rparr>)
      in upd s3 dg1 (\<lambda>n. n\<lparr>forward := Some dg2\<rparr>))"

text \<open>
  \<open>unify_core\<close> calls itself, and nothing in the source bounds the depth of the calls. The
  first argument is the depth still allowed: \<open>None\<close> says that the calls went deeper. The
  result is the value returned or the exception raised, with the state reached.
\<close>

primrec unify_core ::
  "nat \<Rightarrow> state \<Rightarrow> addr \<Rightarrow> addr \<Rightarrow> ((error + bool) \<times> state) option" where
  "unify_core 0 s node1 node2 = None"
| "unify_core (Suc k) s node1 node2 =
     (case dereference s node1 of
        Inl e \<Rightarrow> Some (Inl e, s)
      | Inr (dg1, s1) \<Rightarrow>
     (case dereference s1 node2 of
        Inl e \<Rightarrow> Some (Inl e, s1)
      | Inr (dg2, s2) \<Rightarrow>
     if dg1 = dg2 then Some (Inr True, s2)
     else if is_leaf_node (heap s2 ! dg1) \<and> is_leaf_node (heap s2 ! dg2) then
       (if name (heap s2 ! dg1) = name (heap s2 ! dg2) then Some (Inr True, s2)
        else Some (Inl UnificationFailure, s2))
     else if is_leaf_node (heap s2 ! dg1) then Some (Inr True, forward_leaf s2 dg1 dg2)
     else if is_leaf_node (heap s2 ! dg2) then Some (Inr True, forward_leaf s2 dg2 dg1)
     else
       (let shared_arcs = intersect_arcs (arc_list (heap s2 ! dg1)) (arc_list (heap s2 ! dg2));
            new_arcs = complement_arcs (arc_list (heap s2 ! dg2)) (arc_list (heap s2 ! dg1))
        in if shared_arcs = [] then Some (Inr True, merge_complement s2 dg1 dg2 new_arcs)
           else
             (case for_shared (unify_core k) s2 dg1 shared_arcs of
                None \<Rightarrow> None
              | Some (Inl e, s') \<Rightarrow> Some (Inl e, s')
              | Some (Inr u, s') \<Rightarrow>
                  Some (Inr True, merge_complement s' dg1 dg2 new_arcs)))))"

subsection \<open>Copy-out and the top level\<close>

text \<open>
  \<open>DGNode\<close> is a \<open>@dataclass\<close> with the default \<open>eq=True\<close> and without \<open>frozen\<close>, so the
  decorator sets its \<open>__hash__\<close> to \<open>None\<close>: hashing a node raises TypeError.
  \<open>WeakSet.__contains__\<close> and \<open>WeakSet.add\<close> hash the weak reference to their argument,
  which hashes the node itself.
\<close>

definition hash_DGNode :: "DGNode \<Rightarrow> error + int" where
  "hash_DGNode n = Inl TypeError"

definition weakset_contains :: "state \<Rightarrow> addr \<Rightarrow> error + bool" where
  "weakset_contains s node =
     (case hash_DGNode (heap s ! node) of
        Inl e \<Rightarrow> Inl e
      | Inr h \<Rightarrow> Inr (node \<in> shared_structures s))"

definition weakset_add :: "state \<Rightarrow> addr \<Rightarrow> error + state" where
  "weakset_add s node =
     (case hash_DGNode (heap s ! node) of
        Inl e \<Rightarrow> Inl e
      | Inr h \<Rightarrow> Inr (s\<lparr>shared_structures := insert node (shared_structures s)\<rparr>))"

text \<open>
  \<open>copy_with_comp_arcs\<close> reads the node it is given (it does not dereference it), copies
  its two lists with \<open>list.copy()\<close>, which copies the list and not the nodes the arcs
  point to, and allocates the new node.
\<close>

definition copy_with_comp_arcs :: "state \<Rightarrow> addr \<Rightarrow> (error + addr) \<times> state" where
  "copy_with_comp_arcs s node =
     (if \<not> node < length (heap s) then (Inl InvalidReference, s)
      else
       (case (if structure_sharing s then weakset_contains s node else Inr False) of
          Inl e \<Rightarrow> (Inl e, s)
        | Inr True \<Rightarrow>
            (Inr (case copy (heap s ! node) of Some c \<Rightarrow> c | None \<Rightarrow> node), s)
        | Inr False \<Rightarrow>
            (let n = heap s ! node;
                 (new_node, s1) =
                    alloc (DGNode_init (node_type n) (arc_list n) (comp_arc_list n) (name n)) s;
                 s2 = upd s1 new_node (\<lambda>m. m\<lparr>arc_list := arc_list m @ comp_arc_list m\<rparr>);
                 s3 = upd s2 new_node (\<lambda>m. m\<lparr>comp_arc_list := []\<rparr>)
             in if structure_sharing s3 then
                  (let s4 = upd s3 node (\<lambda>m. m\<lparr>copy := Some new_node\<rparr>)
                   in case weakset_add s4 node of
                        Inl e \<Rightarrow> (Inl e, s4)
                      | Inr s5 \<Rightarrow> (Inr new_node, s5))
                else (Inr new_node, s3))))"

text \<open>
  The top level catches \<open>UnificationFailure\<close> and nothing else. \<open>Inr None\<close> is the
  value \<open>None\<close> returned, \<open>Inl e\<close> an exception that leaves \<open>unify\<close>.
\<close>

definition unify ::
  "nat \<Rightarrow> state \<Rightarrow> addr \<Rightarrow> addr \<Rightarrow> ((error + addr option) \<times> state) option" where
  "unify k s node1 node2 =
     (case unify_core k s node1 node2 of
        None \<Rightarrow> None
      | Some (Inl e, s') \<Rightarrow>
          (if e = UnificationFailure then Some (Inr None, s') else Some (Inl e, s'))
      | Some (Inr ok, s') \<Rightarrow>
          (if ok then
             (case copy_with_comp_arcs s' node1 of
                (Inl e, s'') \<Rightarrow>
                  (if e = UnificationFailure then Some (Inr None, s'') else Some (Inl e, s''))
              | (Inr result, s'') \<Rightarrow> Some (Inr (Some result), s''))
           else Some (Inr None, s')))"

subsection \<open>Forward chains\<close>

text \<open>
  \<open>fwd_path h n ns r\<close>: following \<open>forward\<close> from \<open>n\<close> in the heap \<open>h\<close> passes through the
  nodes \<open>ns\<close>, each with a forward, and ends at \<open>r\<close>, which has none. A node has such a
  path exactly when its forward chain is acyclic and stays inside the heap.
\<close>

inductive fwd_path :: "DGNode list \<Rightarrow> addr \<Rightarrow> addr list \<Rightarrow> addr \<Rightarrow> bool" where
  fwd_end: "n < length h \<Longrightarrow> forward (h ! n) = None \<Longrightarrow> fwd_path h n [] n"
| fwd_step: "n < length h \<Longrightarrow> forward (h ! n) = Some m \<Longrightarrow> fwd_path h m ns r
     \<Longrightarrow> fwd_path h n (n # ns) r"

code_pred fwd_path .

subsection \<open>What a call leaves alone\<close>

text \<open>
  \<open>same_inputs s s'\<close>: the heaps of \<open>s\<close> and \<open>s'\<close> hold the same number of nodes, node by
  node with the same type, the same name and the same \<open>arc_list\<close>, and the unifier has the
  same \<open>structure_sharing\<close> flag.
\<close>

definition same_inputs :: "state \<Rightarrow> state \<Rightarrow> bool" where
  "same_inputs s s' =
     (map node_type (heap s') = map node_type (heap s) \<and>
      map arc_list (heap s') = map arc_list (heap s) \<and>
      map name (heap s') = map name (heap s) \<and>
      structure_sharing s' = structure_sharing s)"

subsection \<open>Structural equality\<close>

text \<open>
  Modelled from the spec: the optional operation \<open>equal(n1, n2)\<close>, "boolean structural
  equality modulo arc order", which the source does not implement. Two nodes are equal when
  they have the same type and name and as many arcs, and every arc of the first has an arc
  of the same label in the second that leads to an equal node. The first argument bounds the
  depth of the comparison.
\<close>

fun struct_equal :: "nat \<Rightarrow> DGNode list \<Rightarrow> addr \<Rightarrow> addr \<Rightarrow> bool" where
  "struct_equal 0 h a b = False"
| "struct_equal (Suc k) h a b =
     (a < length h \<and> b < length h \<and>
      node_type (h ! a) = node_type (h ! b) \<and> name (h ! a) = name (h ! b) \<and>
      length (arc_list (h ! a)) = length (arc_list (h ! b)) \<and>
      list_all (\<lambda>arc. case find_arc (label arc) (arc_list (h ! b)) of
                         None \<Rightarrow> False
                       | Some arc' \<Rightarrow> struct_equal k h (val arc) (val arc'))
               (arc_list (h ! a)))"

subsection \<open>Fresh trees\<close>

text \<open>
  The graphs that \<open>create_leaf_node\<close> and \<open>create_complex_node\<close> build when every node is
  used once, before any unification has written to them. \<open>footprint k h a\<close> is the set of
  the nodes that are reached from \<open>a\<close> along at most \<open>k\<close> arcs of the \<open>arc_list\<close>s.
  \<open>fresh_tree k h a\<close> says that \<open>a\<close> is the root of a tree of fewer than \<open>k\<close> levels of arcs:
  no node has a forward or complement arcs, the labels of each \<open>arc_list\<close> are distinct, and
  no node is reached twice.
\<close>

primrec footprint :: "nat \<Rightarrow> DGNode list \<Rightarrow> addr \<Rightarrow> addr set" where
  "footprint 0 h a = {a}"
| "footprint (Suc k) h a =
     insert a (\<Union>arc \<in> set (arc_list (h ! a)). footprint k h (val arc))"

primrec fresh_tree :: "nat \<Rightarrow> DGNode list \<Rightarrow> addr \<Rightarrow> bool" where
  "fresh_tree 0 h a = False"
| "fresh_tree (Suc k) h a =
     (a < length h \<and> forward (h ! a) = None \<and> comp_arc_list (h ! a) = [] \<and>
      distinct (map label (arc_list (h ! a))) \<and>
      (\<forall>arc \<in> set (arc_list (h ! a)).
          fresh_tree k h (val arc) \<and> a \<notin> footprint k h (val arc)) \<and>
      (\<forall>arc \<in> set (arc_list (h ! a)). \<forall>arc' \<in> set (arc_list (h ! a)).
          label arc \<noteq> label arc' \<longrightarrow>
            footprint k h (val arc) \<inter> footprint k h (val arc') = {}))"

text \<open>
  What \<open>unify_core\<close> decides on two such trees, read off its branches: two leaves need
  equal names, a leaf and a node that is not one always unify, and two nodes that are not
  leaves unify when, for every arc of the second whose label the first has too, the two
  children do.
\<close>

primrec unifiable :: "nat \<Rightarrow> DGNode list \<Rightarrow> addr \<Rightarrow> addr \<Rightarrow> bool" where
  "unifiable 0 h a b = False"
| "unifiable (Suc k) h a b =
     (if is_leaf_node (h ! a) \<and> is_leaf_node (h ! b) then name (h ! a) = name (h ! b)
      else if is_leaf_node (h ! a) \<or> is_leaf_node (h ! b) then True
      else (\<forall>arc \<in> set (arc_list (h ! b)).
              case find_arc (label arc) (arc_list (h ! a)) of
                None \<Rightarrow> True
              | Some arc1 \<Rightarrow> unifiable k h (val arc1) (val arc)))"

subsection \<open>Example graphs\<close>

text \<open>Two leaves \<open>X\<close>, \<open>Y\<close> at 0 and 1, then \<open>{f: X}\<close> at 2 and \<open>{g: Y}\<close> at 3.\<close>

definition ex_disjoint :: state where
  "ex_disjoint =
     \<lparr>heap = [DGNode_init LEAF [] [] (Some ''X''), DGNode_init LEAF [] [] (Some ''Y''),
              DGNode_init COMPLEX [\<lparr>label = ''f'', val = 0\<rparr>] [] None,
              DGNode_init COMPLEX [\<lparr>label = ''g'', val = 1\<rparr>] [] None],
      counter = 10, structure_sharing = False, shared_structures = {},
      compare_depth = 300\<rparr>"

text \<open>
  A leaf at 0 and two complex nodes without arcs at 1 and 2, after \<open>unify_core\<close> of 0 with
  1 and then of 1 with 2: the leaf forwards to 1 with generation 11, node 1 forwards to 2
  with generation 12, and the counter stands at 12.
\<close>

definition ex_chain_fresh :: state where
  "ex_chain_fresh =
     \<lparr>heap = [DGNode_init LEAF [] [] (Some ''A''), DGNode_init COMPLEX [] [] None,
              DGNode_init COMPLEX [] [] None],
      counter = 10, structure_sharing = False, shared_structures = {},
      compare_depth = 300\<rparr>"

definition ex_chain :: state where
  "ex_chain =
     \<lparr>heap = [(DGNode_init LEAF [] [] (Some ''A''))\<lparr>forward := Some 1, generation := 11\<rparr>,
              (DGNode_init COMPLEX [] [] None)\<lparr>forward := Some 2, generation := 12\<rparr>,
              DGNode_init COMPLEX [] [] None],
      counter = 12, structure_sharing = False, shared_structures = {},
      compare_depth = 300\<rparr>"

text \<open>
  Leaves \<open>A\<close>, \<open>A\<close>, \<open>Y\<close> at 0, 1, 2, then \<open>{f: A}\<close> at 3 and \<open>{f: A, g: Y}\<close> at 4, and the state
  after \<open>unify_core\<close> of 3 with 4.
\<close>

definition ex_shared :: state where
  "ex_shared =
     \<lparr>heap = [DGNode_init LEAF [] [] (Some ''A''), DGNode_init LEAF [] [] (Some ''A''),
              DGNode_init LEAF [] [] (Some ''Y''),
              DGNode_init COMPLEX [\<lparr>label = ''f'', val = 0\<rparr>] [] None,
              DGNode_init COMPLEX [\<lparr>label = ''f'', val = 1\<rparr>, \<lparr>label = ''g'', val = 2\<rparr>] [] None],
      counter = 10, structure_sharing = False, shared_structures = {},
      compare_depth = 300\<rparr>"

definition ex_shared_after :: state where
  "ex_shared_after =
     \<lparr>heap = [DGNode_init LEAF [] [] (Some ''A''), DGNode_init LEAF [] [] (Some ''A''),
              DGNode_init LEAF [] [] (Some ''Y''),
              (DGNode_init COMPLEX [\<lparr>label = ''f'', val = 0\<rparr>] [\<lparr>label = ''g'', val = 2\<rparr>] None)
                \<lparr>forward := Some 4, generation := 11\<rparr>,
              DGNode_init COMPLEX [\<lparr>label = ''f'', val = 1\<rparr>, \<lparr>label = ''g'', val = 2\<rparr>] [] None],
      counter = 11, structure_sharing = False, shared_structures = {},
      compare_depth = 300\<rparr>"

text \<open>One leaf whose \<open>forward\<close> field refers to the leaf itself.\<close>

definition ex_cycle :: state where
  "ex_cycle =
     \<lparr>heap = [(DGNode_init LEAF [] [] (Some ''A''))\<lparr>forward := Some 0\<rparr>],
      counter = 10, structure_sharing = False, shared_structures = {},
      compare_depth = 300\<rparr>"

text \<open>
  A leaf \<open>X\<close> at 0, \<open>{f: X}\<close> at 1, a complex node without arcs at 2 and \<open>{f: \<dots>}\<close> at 3 whose
  arc points to node 2.
\<close>

definition ex_share :: state where
  "ex_share =
     \<lparr>heap = [DGNode_init LEAF [] [] (Some ''X''),
              DGNode_init COMPLEX [\<lparr>label = ''f'', val = 0\<rparr>] [] None,
              DGNode_init COMPLEX [] [] None,
              DGNode_init COMPLEX [\<lparr>label = ''f'', val = 2\<rparr>] [] None],
      counter = 10, structure_sharing = False, shared_structures = {},
      compare_depth = 300\<rparr>"

text \<open>
  A leaf \<open>A\<close> at 0, a leaf \<open>B\<close> at 1 and a complex node without arcs at 2; at 3 the node
  \<open>{f: A, g: A}\<close>, both arcs pointing to node 0, and at 4 the node \<open>{g: B, f: {}}\<close>. Every
  arc list has distinct labels and there is no cycle.
\<close>

definition ex_dag :: state where
  "ex_dag =
     \<lparr>heap = [DGNode_init LEAF [] [] (Some ''A''), DGNode_init LEAF [] [] (Some ''B''),
              DGNode_init COMPLEX [] [] None,
              DGNode_init COMPLEX [\<lparr>label = ''f'', val = 0\<rparr>, \<lparr>label = ''g'', val = 0\<rparr>] [] None,
              DGNode_init COMPLEX [\<lparr>label = ''g'', val = 1\<rparr>, \<lparr>label = ''f'', val = 2\<rparr>] [] None],
      counter = 10, structure_sharing = False, shared_structures = {},
      compare_depth = 300\<rparr>"

text \<open>\<open>ex_share\<close> after \<open>unify\<close> of node 1 with itself, once and twice.\<close>

definition ex_share_once :: state where
  "ex_share_once =
     ex_share\<lparr>heap := heap ex_share @ [DGNode_init COMPLEX [\<lparr>label = ''f'', val = 0\<rparr>] [] None]\<rparr>"

definition ex_share_twice :: state where
  "ex_share_twice =
     ex_share_once\<lparr>heap := heap ex_share_once @
        [DGNode_init COMPLEX [\<lparr>label = ''f'', val = 0\<rparr>] [] None]\<rparr>"

text \<open>\<open>ex_disjoint\<close> after \<open>unify\<close> of node 2 with node 3.\<close>

definition ex_disjoint_unified :: state where
  "ex_disjoint_unified =
     \<lparr>heap = [DGNode_init LEAF [] [] (Some ''X''), DGNode_init LEAF [] [] (Some ''Y''),
              (DGNode_init COMPLEX [\<lparr>label = ''f'', val = 0\<rparr>] [\<lparr>label = ''g'', val = 1\<rparr>] None)
                \<lparr>forward := Some 3, generation := 11\<rparr>,
              DGNode_init COMPLEX [\<lparr>label = ''g'', val = 1\<rparr>] [] None,
              DGNode_init COMPLEX [\<lparr>label = ''f'', val = 0\<rparr>, \<lparr>label = ''g'', val = 1\<rparr>] [] None],
      counter = 11, structure_sharing = False, shared_structures = {},
      compare_depth = 300\<rparr>"

text \<open>
  Leaves \<open>A\<close>, \<open>A\<close>, \<open>Y\<close>, \<open>H\<close> at 0 to 3; at 4 the node \<open>{f: A}\<close> built with the complement
  arc \<open>h\<close> already in its \<open>comp_arc_list\<close>; at 5 the node \<open>{f: A, g: Y}\<close>. Then the state
  after \<open>unify_core\<close> of 4 with 5.
\<close>

definition ex_holding :: state where
  "ex_holding =
     \<lparr>heap = [DGNode_init LEAF [] [] (Some ''A''), DGNode_init LEAF [] [] (Some ''A''),
              DGNode_init LEAF [] [] (Some ''Y''), DGNode_init LEAF [] [] (Some ''H''),
              DGNode_init COMPLEX [\<lparr>label = ''f'', val = 0\<rparr>] [\<lparr>label = ''h'', val = 3\<rparr>] None,
              DGNode_init COMPLEX [\<lparr>label = ''f'', val = 1\<rparr>, \<lparr>label = ''g'', val = 2\<rparr>] [] None],
      counter = 10, structure_sharing = False, shared_structures = {},
      compare_depth = 300\<rparr>"

definition ex_holding_after :: state where
  "ex_holding_after =
     \<lparr>heap = [DGNode_init LEAF [] [] (Some ''A''), DGNode_init LEAF [] [] (Some ''A''),
              DGNode_init LEAF [] [] (Some ''Y''), DGNode_init LEAF [] [] (Some ''H''),
              (DGNode_init COMPLEX [\<lparr>label = ''f'', val = 0\<rparr>]
                 [\<lparr>label = ''h'', val = 3\<rparr>, \<lparr>label = ''g'', val = 2\<rparr>] None)
                \<lparr>forward := Some 5, generation := 11\<rparr>,
              DGNode_init COMPLEX [\<lparr>label = ''f'', val = 1\<rparr>, \<lparr>label = ''g'', val = 2\<rparr>] [] None],
      counter = 11, structure_sharing = False, shared_structures = {},
      compare_depth = 300\<rparr>"

text \<open>
  Two complex nodes without arcs, each the forward of the other: a cycle of two nodes that
  look alike.
\<close>

definition ex_cycle2 :: state where
  "ex_cycle2 =
     \<lparr>heap = [(DGNode_init COMPLEX [] [] None)\<lparr>forward := Some 1\<rparr>,
              (DGNode_init COMPLEX [] [] None)\<lparr>forward := Some 0\<rparr>],
      counter = 10, structure_sharing = False, shared_structures = {},
      compare_depth = 300\<rparr>"

text \<open>
  A spine: a complex node without arcs at 0, \<open>{f: \<dots>}\<close> at 1 with its arc to node 0 and
  \<open>{f: \<dots>}\<close> at 2 with its arc to node 1, in an interpreter that has room for one
  comparison of two nodes and not for a second one inside it. Then the state after \<open>unify\<close>
  of node 2 with node 1: node 1 forwards to 0, node 2 forwards to 1, and node 3 is the copy
  returned.
\<close>

definition ex_spine :: state where
  "ex_spine =
     \<lparr>heap = [DGNode_init COMPLEX [] [] None,
              DGNode_init COMPLEX [\<lparr>label = ''f'', val = 0\<rparr>] [] None,
              DGNode_init COMPLEX [\<lparr>label = ''f'', val = 1\<rparr>] [] None],
      counter = 10, structure_sharing = False, shared_structures = {},
      compare_depth = 1\<rparr>"

definition ex_spine_unified :: state where
  "ex_spine_unified =
     \<lparr>heap = [DGNode_init COMPLEX [] [] None,
              (DGNode_init COMPLEX [\<lparr>label = ''f'', val = 0\<rparr>] [] None)
                \<lparr>forward := Some 0, generation := 11\<rparr>,
              (DGNode_init COMPLEX [\<lparr>label = ''f'', val = 1\<rparr>] [] None)
                \<lparr>forward := Some 1, generation := 12\<rparr>,
              DGNode_init COMPLEX [\<lparr>label = ''f'', val = 1\<rparr>] [] None],
      counter = 12, structure_sharing = False, shared_structures = {},
      compare_depth = 1\<rparr>"

text \<open>
  Leaves \<open>A\<close>, \<open>B\<close>, \<open>C\<close> at 0, 1, 2; \<open>{h: A}\<close> at 3 and \<open>{f: {h: A}}\<close> at 4; \<open>{k: B}\<close> at 5 and
  \<open>{f: {k: B}, g: C}\<close> at 6.
\<close>

definition ex_nested :: state where
  "ex_nested =
     \<lparr>heap = [DGNode_init LEAF [] [] (Some ''A''), DGNode_init LEAF [] [] (Some ''B''),
              DGNode_init LEAF [] [] (Some ''C''),
              DGNode_init COMPLEX [\<lparr>label = ''h'', val = 0\<rparr>] [] None,
              DGNode_init COMPLEX [\<lparr>label = ''f'', val = 3\<rparr>] [] None,
              DGNode_init COMPLEX [\<lparr>label = ''k'', val = 1\<rparr>] [] None,
              DGNode_init COMPLEX [\<lparr>label = ''f'', val = 5\<rparr>, \<lparr>label = ''g'', val = 2\<rparr>] [] None],
      counter = 10, structure_sharing = False, shared_structures = {},
      compare_depth = 300\<rparr>"

text \<open>
  Leaves \<open>A\<close> and \<open>B\<close> at 0 and 1; \<open>{h: A}\<close> at 2 and \<open>{h: B}\<close> at 3; \<open>{f: {h: A}}\<close> at 4 and
  \<open>{f: {h: B}}\<close> at 5.
\<close>

definition ex_deep_clash :: state where
  "ex_deep_clash =
     \<lparr>heap = [DGNode_init LEAF [] [] (Some ''A''), DGNode_init LEAF [] [] (Some ''B''),
              DGNode_init COMPLEX [\<lparr>label = ''h'', val = 0\<rparr>] [] None,
              DGNode_init COMPLEX [\<lparr>label = ''h'', val = 1\<rparr>] [] None,
              DGNode_init COMPLEX [\<lparr>label = ''f'', val = 2\<rparr>] [] None,
              DGNode_init COMPLEX [\<lparr>label = ''f'', val = 3\<rparr>] [] None],
      counter = 10, structure_sharing = False, shared_structures = {},
      compare_depth = 300\<rparr>"


section \<open>Arc set operations\<close>

lemma intersect_loop_filter:
  "intersect_loop L bs acc = acc @ filter (\<lambda>b. label b \<in> L) bs"
  by (induction bs arbitrary: acc) simp_all

lemma complement_loop_filter:
  "complement_loop L as acc = acc @ filter (\<lambda>a. label a \<notin> L) as"
  by (induction as arbitrary: acc) simp_all

lemma intersect_arcs_filter:
  "intersect_arcs arcs1 arcs2 = filter (\<lambda>b. label b \<in> label ` set arcs1) arcs2"
  by (simp add: intersect_arcs_def intersect_loop_filter)

lemma complement_arcs_filter:
  "complement_arcs arcs1 arcs2 = filter (\<lambda>a. label a \<notin> label ` set arcs2) arcs1"
  by (simp add: complement_arcs_def complement_loop_filter)

section \<open>The constructors\<close>

text \<open>
  C9, as the source has it. \<open>create_complex_node\<close> checks nothing: for every arc list,
  with or without repeated labels, it allocates a complex node that carries exactly that
  list and leaves the nodes already in the heap as they are.
\<close>

theorem create_complex_node_accepts_all:
  "create_complex_node arcs s =
     (length (heap s),
      s\<lparr>heap := heap s @ [\<lparr>node_type = COMPLEX, arc_list = arcs, comp_arc_list = [],
            forward = None, copy = None, generation = 0, mark = None, name = None\<rparr>]\<rparr>) \<and>
   arc_list (heap (snd (create_complex_node arcs s)) ! fst (create_complex_node arcs s)) = arcs \<and>
   node_type (heap (snd (create_complex_node arcs s)) ! fst (create_complex_node arcs s)) = COMPLEX"
  by (simp add: create_complex_node_def alloc_def DGNode_init_def)

text \<open>
  C9 as the claim words it fails: a list with the label \<open>f\<close> twice is not rejected, the
  node is built with both arcs.
\<close>

theorem create_complex_node_duplicate_counterexample:
  "\<not> distinct (map label [\<lparr>label = ''f'', val = 0\<rparr>, \<lparr>label = ''f'', val = 1\<rparr>]) \<and>
   create_complex_node [\<lparr>label = ''f'', val = 0\<rparr>, \<lparr>label = ''f'', val = 1\<rparr>] ex_disjoint =
     (4, ex_disjoint\<lparr>heap := heap ex_disjoint @
        [DGNode_init COMPLEX [\<lparr>label = ''f'', val = 0\<rparr>, \<lparr>label = ''f'', val = 1\<rparr>] [] None]\<rparr>)"
  by (simp add: create_complex_node_def alloc_def ex_disjoint_def)

section \<open>Dereference\<close>

lemma fwd_path_det:
  "fwd_path h n ns r \<Longrightarrow> fwd_path h n ns' r' \<Longrightarrow> ns' = ns \<and> r' = r"
proof (induction arbitrary: ns' r' rule: fwd_path.induct)
  case (fwd_end n h)
  from fwd_end.prems fwd_end.hyps show ?case by (cases rule: fwd_path.cases) simp_all
next
  case (fwd_step n h m ns r)
  from fwd_step.prems show ?case
  proof (cases rule: fwd_path.cases)
    case fwd_end
    then show ?thesis using fwd_step.hyps by simp
  next
    case (fwd_step m' ms)
    then have "m' = m" using fwd_step.hyps by simp
    then show ?thesis using fwd_step.IH[of ms r'] fwd_step by simp
  qed
qed

lemma length_compress [simp]: "length (compress h p r) = length h"
  by (induction p arbitrary: h) simp_all


lemma fwd_path_end: "fwd_path h n ns r \<Longrightarrow> r < length h \<and> forward (h ! r) = None"
  by (induction rule: fwd_path.induct) simp_all

lemma fwd_path_mem:
  "fwd_path h n ns r \<Longrightarrow> x \<in> set ns \<Longrightarrow>
     x < length h \<and> forward (h ! x) \<noteq> None \<and> (\<exists>ms. fwd_path h x ms r \<and> length ms \<le> length ns)"
proof (induction rule: fwd_path.induct)
  case (fwd_end n h)
  then show ?case by simp
next
  case (fwd_step n h m ns r)
  have whole: "fwd_path h n (n # ns) r"
    using fwd_step.hyps by (rule fwd_path.fwd_step)
  show ?case
  proof (cases "x = n")
    case True
    then show ?thesis using whole fwd_step.hyps(1,2) by auto
  next
    case False
    then have "x \<in> set ns" using fwd_step.prems by simp
    from fwd_step.IH[OF this] obtain ms where
      a: "x < length h" "forward (h ! x) \<noteq> None" "fwd_path h x ms r" "length ms \<le> length ns"
      by blast
    have "length ms \<le> length (n # ns)" using a(4) by simp
    then show ?thesis using a(1,2,3) by blast
  qed
qed

lemma fwd_path_distinct: "fwd_path h n ns r \<Longrightarrow> distinct ns \<and> r \<notin> set ns"
proof (induction rule: fwd_path.induct)
  case (fwd_end n h)
  then show ?case by simp
next
  case (fwd_step n h m ns r)
  have whole: "fwd_path h n (n # ns) r"
    using fwd_step.hyps by (rule fwd_path.fwd_step)
  have "n \<notin> set ns"
  proof
    assume "n \<in> set ns"
    from fwd_path_mem[OF fwd_step.hyps(3) this] obtain ms where
      ms: "fwd_path h n ms r" "length ms \<le> length ns" by blast
    from fwd_path_det[OF whole ms(1)] have "ms = n # ns" by simp
    then show False using ms(2) by simp
  qed
  moreover have "r \<noteq> n"
    using fwd_path_end[OF fwd_step.hyps(3)] fwd_step.hyps(2) by auto
  ultimately show ?case using fwd_step.IH by simp
qed

lemma fwd_path_start: "fwd_path h n ns r \<Longrightarrow> n < length h"
  by (erule fwd_path.cases) simp_all

lemma in_path_False: "in_path d h c p = Inr False \<Longrightarrow> c \<notin> set p"
  by (induction p) (auto split: sum.splits if_splits)

lemma deref_walk_Inr:
  "deref_walk d h path n = Inr (p, r) \<Longrightarrow> \<exists>ns. p = path @ ns \<and> fwd_path h n ns r"
proof (induction d h path n rule: deref_walk.induct)
  case (1 d h path current)
  have lt: "current < length h"
    using "1.prems" by (subst (asm) deref_walk.simps) (simp split: if_splits)
  show ?case
  proof (cases "forward (h ! current)")
    case None
    then have "p = path" "r = current"
      using "1.prems" lt by (subst (asm) deref_walk.simps, simp)+
    then show ?thesis using lt None by (simp add: fwd_path.fwd_end)
  next
    case (Some nxt)
    have ip: "in_path d h current path = Inr False"
      using "1.prems" lt Some
      by (subst (asm) deref_walk.simps) (auto split: sum.splits if_splits)
    have rec: "deref_walk d h (path @ [current]) nxt = Inr (p, r)"
      using "1.prems" lt Some ip by (subst (asm) deref_walk.simps) simp
    from "1.IH"[OF lt Some ip _ rec] obtain ns where
      ns: "p = (path @ [current]) @ ns" "fwd_path h nxt ns r" by auto
    have "fwd_path h current (current # ns) r"
      using lt Some ns(2) by (rule fwd_path.fwd_step)
    then show ?thesis using ns(1) by auto
  qed
qed

text \<open>
  Two nodes of forward chains that end at the same node, at different distances from it,
  are unequal for \<open>==\<close>, and the comparison nests no deeper than the shorter distance
  plus one.
\<close>

lemma DGNode_eq_chain:
  "fwd_path h p ps r \<Longrightarrow> fwd_path h c cs r \<Longrightarrow> length cs < length ps \<Longrightarrow> length cs < d
     \<Longrightarrow> DGNode_eq d h p c = Inr False"
proof (induction cs arbitrary: p ps c d)
  case Nil
  then have c: "c = r" and fc: "forward (h ! c) = None" and lc: "c < length h"
    by (auto elim: fwd_path.cases)
  obtain p' ps' where ps: "ps = p # ps'" and fp: "forward (h ! p) = Some p'"
    and lp: "p < length h"
    using Nil.prems(1,3) by (auto elim: fwd_path.cases)
  obtain d' where d: "d = Suc d'" using Nil.prems(4) by (cases d) auto
  show ?case using fc fp lc lp by (simp add: d field_eq_def)
next
  case (Cons x cs)
  from Cons.prems(2) obtain c' where xc: "x = c" and fc: "forward (h ! c) = Some c'"
    and lc: "c < length h" and pc: "fwd_path h c' cs r"
    by (auto elim: fwd_path.cases)
  from Cons.prems(1,3) obtain p' ps' where ps: "ps = p # ps'"
    and fp: "forward (h ! p) = Some p'" and lp: "p < length h" and pp: "fwd_path h p' ps' r"
    by (auto elim: fwd_path.cases)
  obtain d' where d: "d = Suc d'" using Cons.prems(4) by (cases d) auto
  have len: "length cs < length ps'" "length cs < d'" using Cons.prems(3,4) ps d by simp_all
  have ne: "p' \<noteq> c'"
  proof
    assume "p' = c'"
    then have "ps' = cs" using fwd_path_det[OF pc, of ps' r] pp by simp
    then show False using len by simp
  qed
  have rec: "DGNode_eq d' h p' c' = Inr False" using pp pc len by (rule Cons.IH)
  show ?case using fc fp lc lp ne rec by (simp add: d field_eq_def)
qed

lemma in_path_chain:
  assumes c: "fwd_path h c cs r" and d: "length cs < d"
    and items: "\<forall>p \<in> set path. \<exists>ps. fwd_path h p ps r \<and> length cs < length ps"
  shows "in_path d h c path = Inr False"
  using items
proof (induction path)
  case Nil
  then show ?case by simp
next
  case (Cons p path)
  then obtain ps where ps: "fwd_path h p ps r" "length cs < length ps" by auto
  have ne: "p \<noteq> c" using fwd_path_det[OF c, of ps r] ps by auto
  have "DGNode_eq d h p c = Inr False" using ps(1) c ps(2) d by (rule DGNode_eq_chain)
  then show ?case using ne Cons by simp
qed

lemma deref_walk_fwd_path:
  assumes fp: "fwd_path h n ns r"
    and items: "\<forall>p \<in> set path. \<exists>ps. fwd_path h p ps r \<and> length ns < length ps"
    and d: "length ns \<le> d" and d': "path \<noteq> [] \<Longrightarrow> length ns < d"
  shows "deref_walk d h path n = Inr (path @ ns, r)"
  using fp items d d'
proof (induction arbitrary: path rule: fwd_path.induct)
  case (fwd_end n h)
  then show ?case by (simp add: deref_walk.simps)
next
  case (fwd_step n h m ns r)
  have whole: "fwd_path h n (n # ns) r" using fwd_step.hyps by (rule fwd_path.fwd_step)
  have ip: "in_path d h n path = Inr False"
  proof (cases "path = []")
    case True
    then show ?thesis by simp
  next
    case False
    then have "length (n # ns) < d" using fwd_step.prems(3) by simp
    with whole show ?thesis using fwd_step.prems(1) by (rule in_path_chain)
  qed
  have items': "\<forall>p \<in> set (path @ [n]). \<exists>ps. fwd_path h p ps r \<and> length ns < length ps"
  proof
    fix p assume "p \<in> set (path @ [n])"
    then consider "p \<in> set path" | "p = n" by auto
    then show "\<exists>ps. fwd_path h p ps r \<and> length ns < length ps"
    proof cases
      case 1
      then obtain ps where "fwd_path h p ps r" "length (n # ns) < length ps"
        using fwd_step.prems(1) by blast
      then show ?thesis by auto
    next
      case 2
      then show ?thesis using whole by auto
    qed
  qed
  have "deref_walk d h (path @ [n]) m = Inr ((path @ [n]) @ ns, r)"
    using items' fwd_step.prems(2) by (intro fwd_step.IH) simp_all
  then show ?case using fwd_step.hyps(1,2) ip by (subst deref_walk.simps) simp
qed

lemma nth_compress:
  "i < length h \<Longrightarrow>
     compress h p r ! i = (if i \<in> set p then (h ! i)\<lparr>forward := Some r\<rparr> else h ! i)"
proof (induction p arbitrary: h)
  case Nil
  then show ?case by simp
next
  case (Cons x p)
  then show ?case by (cases "i = x") (simp_all add: nth_list_update)
qed


lemma forward_update_same: "forward x = Some r \<Longrightarrow> x\<lparr>forward := Some r\<rparr> = x"
  by (cases x) simp

lemma dereference_fwd_path:
  "fwd_path (heap s) n ns r \<Longrightarrow> length ns \<le> compare_depth s \<Longrightarrow>
     dereference s n = Inr (r, s\<lparr>heap := compress (heap s) ns r\<rparr>)"
  using deref_walk_fwd_path[of "heap s" n ns r "[]" "compare_depth s"]
  by (simp add: dereference_def)

lemma dereference_Inr:
  "dereference s n = Inr (r, s') \<Longrightarrow>
     \<exists>ns. fwd_path (heap s) n ns r \<and> s' = s\<lparr>heap := compress (heap s) ns r\<rparr>"
proof -
  assume a: "dereference s n = Inr (r, s')"
  then obtain p where w: "deref_walk (compare_depth s) (heap s) [] n = Inr (p, r)"
    and s': "s' = s\<lparr>heap := compress (heap s) p r\<rparr>"
    by (auto simp: dereference_def split: sum.splits)
  from deref_walk_Inr[OF w] show ?thesis using s' by auto
qed

lemma dereference_end:
  "forward (heap s ! r) = None \<Longrightarrow> r < length (heap s) \<Longrightarrow> dereference s r = Inr (r, s)"
  by (simp add: dereference_def deref_walk.simps)

lemma dereference_one_hop:
  assumes n: "n < length (heap s)" and fn: "forward (heap s ! n) = Some r"
    and r: "r < length (heap s)" and fr: "forward (heap s ! r) = None"
  shows "dereference s n = Inr (r, s)"
proof -
  have w: "deref_walk (compare_depth s) (heap s) [] n = Inr ([n], r)"
    using n fn r fr
    by (subst deref_walk.simps, simp, subst deref_walk.simps, simp)
  show ?thesis using fn by (simp add: dereference_def w forward_update_same)
qed

lemma dereference_idem:
  assumes d: "dereference s n = Inr (r, s')"
  shows "dereference s' r = Inr (r, s') \<and> dereference s' n = Inr (r, s')"
proof -
  from dereference_Inr[OF d] obtain ns where
    fp: "fwd_path (heap s) n ns r" and s': "s' = s\<lparr>heap := compress (heap s) ns r\<rparr>" by blast
  have e: "r < length (heap s)" "forward (heap s ! r) = None"
    using fwd_path_end[OF fp] by simp_all
  have rn: "r \<notin> set ns" using fwd_path_distinct[OF fp] by simp
  have r': "forward (heap s' ! r) = None" "r < length (heap s')"
    using e rn by (simp_all add: s' nth_compress)
  have idem: "dereference s' r = Inr (r, s')"
    using r' by (rule dereference_end)
  have again: "dereference s' n = Inr (r, s')"
  proof (cases ns)
    case Nil
    then have "n = r" using fp by (auto elim: fwd_path.cases)
    then show ?thesis using idem by simp
  next
    case (Cons a as)
    then have "a = n" using fp by (auto elim: fwd_path.cases)
    then have nin: "n \<in> set ns" using Cons by simp
    then have nl: "n < length (heap s')" using fwd_path_mem[OF fp nin] by (simp add: s')
    have fn: "forward (heap s' ! n) = Some r"
      using nin fwd_path_mem[OF fp nin] by (simp add: s' nth_compress)
    show ?thesis using nl fn r'(2) r'(1) by (rule dereference_one_hop)
  qed
  show ?thesis using idem again by simp
qed

lemma DGNode_eq_errors:
  "DGNode_eq d h a b = Inl e \<Longrightarrow> e = RecursionError \<or> e = InvalidReference"
proof (induction d arbitrary: a b)
  case 0
  then show ?case by simp
next
  case (Suc d)
  then show ?case
    by (auto simp: field_eq_def split: if_splits sum.splits option.splits)
qed

lemma in_path_errors:
  "in_path d h c p = Inl e \<Longrightarrow> e = RecursionError \<or> e = InvalidReference"
  by (induction p) (auto split: if_splits sum.splits dest: DGNode_eq_errors)

lemma deref_walk_errors:
  "deref_walk d h path n = Inl e \<Longrightarrow>
     e = ValueError \<or> e = RecursionError \<or> e = InvalidReference"
proof (induction d h path n rule: deref_walk.induct)
  case (1 d h path current)
  show ?case
  proof (cases "current < length h")
    case False
    then show ?thesis using "1.prems" by (subst (asm) deref_walk.simps) simp
  next
    case lt: True
    show ?thesis
    proof (cases "forward (h ! current)")
      case None
      then show ?thesis using "1.prems" lt by (subst (asm) deref_walk.simps) simp
    next
      case (Some nxt)
      show ?thesis
      proof (cases "in_path d h current path")
        case (Inl e')
        then have "e = e'" using "1.prems" lt Some by (subst (asm) deref_walk.simps) simp
        then show ?thesis using in_path_errors[OF Inl] by auto
      next
        case (Inr found)
        show ?thesis
        proof (cases found)
          case True
          then show ?thesis using "1.prems" lt Some Inr
            by (subst (asm) deref_walk.simps) simp
        next
          case False
          then have "deref_walk d h (path @ [current]) nxt = Inl e"
            using "1.prems" lt Some Inr by (subst (asm) deref_walk.simps) simp
          from "1.IH"[OF lt Some Inr False this] show ?thesis .
        qed
      qed
    qed
  qed
qed

lemma dereference_errors:
  "dereference s n = Inl e \<Longrightarrow> e = ValueError \<or> e = RecursionError \<or> e = InvalidReference"
  using deref_walk_errors[of "compare_depth s" "heap s" "[]" n e]
  by (auto simp: dereference_def split: sum.splits prod.splits)

text \<open>
  C8, as the source has it. Let the forward chain of \<open>n\<close> end, at \<open>r\<close> after the nodes
  \<open>ns\<close>, and let the chain have no more hops than comparisons may nest. Then
  \<open>dereference\<close> does not fail and returns \<open>r\<close>, whose forward is absent; every node of
  \<open>ns\<close> is as before but for its forward, which now refers to \<open>r\<close>, and every other node is
  unchanged; dereferencing \<open>r\<close> or \<open>n\<close> again returns \<open>r\<close> and changes nothing. No
  generation is written: every node keeps its generation and the counter does not move.
\<close>

theorem dereference_well_formed:
  assumes fp: "fwd_path (heap s) n ns r" and depth: "length ns \<le> compare_depth s"
  shows "\<exists>s'. dereference s n = Inr (r, s') \<and>
     r < length (heap s) \<and> forward (heap s ! r) = None \<and>
     length (heap s') = length (heap s) \<and> counter s' = counter s \<and>
     (\<forall>x \<in> set ns. heap s' ! x = (heap s ! x)\<lparr>forward := Some r\<rparr>) \<and>
     (\<forall>i < length (heap s). i \<notin> set ns \<longrightarrow> heap s' ! i = heap s ! i) \<and>
     (\<forall>i < length (heap s). generation (heap s' ! i) = generation (heap s ! i)) \<and>
     dereference s' r = Inr (r, s') \<and> dereference s' n = Inr (r, s')"
proof -
  define s' where "s' = s\<lparr>heap := compress (heap s) ns r\<rparr>"
  have d: "dereference s n = Inr (r, s')"
    unfolding s'_def using fp depth by (rule dereference_fwd_path)
  have e: "r < length (heap s)" "forward (heap s ! r) = None"
    using fwd_path_end[OF fp] by simp_all
  have len: "length (heap s') = length (heap s)" by (simp add: s'_def)
  have cnt: "counter s' = counter s" by (simp add: s'_def)
  have inp: "\<forall>x \<in> set ns. heap s' ! x = (heap s ! x)\<lparr>forward := Some r\<rparr>"
  proof
    fix x assume x: "x \<in> set ns"
    then have "x < length (heap s)" using fwd_path_mem[OF fp x] by simp
    then show "heap s' ! x = (heap s ! x)\<lparr>forward := Some r\<rparr>"
      using x by (simp add: s'_def nth_compress)
  qed
  have outp: "\<forall>i < length (heap s). i \<notin> set ns \<longrightarrow> heap s' ! i = heap s ! i"
    by (simp add: s'_def nth_compress)
  have gen: "\<forall>i < length (heap s). generation (heap s' ! i) = generation (heap s ! i)"
    by (simp add: s'_def nth_compress)
  have idem: "dereference s' r = Inr (r, s')" and again: "dereference s' n = Inr (r, s')"
    using dereference_idem[OF d] by simp_all
  show ?thesis using d e len cnt inp outp gen idem again by blast
qed

text \<open>A concrete chain for the theorem: in \<open>ex_chain\<close> node 0 forwards to 1 and 1 to 2.\<close>

theorem dereference_well_formed_witness:
  "fwd_path (heap ex_chain) 0 [0, 1] 2 \<and> length [0::nat, 1] \<le> compare_depth ex_chain \<and>
   (\<exists>s'. dereference ex_chain 0 = Inr (2, s') \<and>
     2 < length (heap ex_chain) \<and> forward (heap ex_chain ! 2) = None \<and>
     length (heap s') = length (heap ex_chain) \<and> counter s' = counter ex_chain \<and>
     (\<forall>x \<in> set [0, 1]. heap s' ! x = (heap ex_chain ! x)\<lparr>forward := Some 2\<rparr>) \<and>
     (\<forall>i < length (heap ex_chain). i \<notin> set [0, 1] \<longrightarrow> heap s' ! i = heap ex_chain ! i) \<and>
     (\<forall>i < length (heap ex_chain). generation (heap s' ! i) = generation (heap ex_chain ! i)) \<and>
     dereference s' 2 = Inr (2, s') \<and> dereference s' 0 = Inr (2, s'))"
proof -
  have p2: "fwd_path (heap ex_chain) 2 [] 2"
    by (rule fwd_end) (simp_all add: ex_chain_def DGNode_init_def)
  have p1: "fwd_path (heap ex_chain) 1 [1] 2"
    by (rule fwd_step[OF _ _ p2]) (simp_all add: ex_chain_def DGNode_init_def)
  have p0: "fwd_path (heap ex_chain) 0 [0, 1] 2"
    by (rule fwd_step[OF _ _ p1]) (simp_all add: ex_chain_def DGNode_init_def)
  have dp: "length [0::nat, 1] \<le> compare_depth ex_chain" by (simp add: ex_chain_def)
  show ?thesis using p0 dp dereference_well_formed[OF p0 dp] by simp
qed

text \<open>
  C8 as the claim words it fails twice. On the stamp: \<open>ex_chain\<close> is the state that two
  calls of \<open>unify_core\<close> leave; dereferencing node 0 there rewrites its forward from 1 to
  2, and its generation is still 11 while the counter is 12. And on a forward chain that
  ends: in \<open>ex_spine_unified\<close>, the state that \<open>unify\<close> of node 2 with node 1 leaves, the
  chain of node 2 ends at node 0 after two hops, the nodes 2 and 1 look alike, and the
  comparison of the two needs a second comparison inside it, for which there is no room:
  \<open>dereference\<close> raises \<open>RecursionError\<close>.
\<close>

theorem dereference_stamp_counterexample:
  "(case unify_core 1 ex_chain_fresh 0 1 of
      None \<Rightarrow> False
    | Some (res, s1) \<Rightarrow> unify_core 1 s1 1 2 = Some (Inr True, ex_chain)) \<and>
   forward (heap ex_chain ! 0) = Some 1 \<and>
   (case dereference ex_chain 0 of
      Inl e \<Rightarrow> False
    | Inr (r, s') \<Rightarrow> r = 2 \<and> forward (heap s' ! 0) = Some 2 \<and>
        generation (heap s' ! 0) = 11 \<and> counter s' = 12) \<and>
   unify 2 ex_spine 2 1 = Some (Inr (Some 3), ex_spine_unified) \<and>
   fwd_path (heap ex_spine_unified) 2 [2, 1] 0 \<and>
   dereference ex_spine_unified 2 = Inl RecursionError"
  by code_simp

section \<open>What \<open>unify_core\<close> never changes\<close>

lemma same_inputs_refl [simp]: "same_inputs s s"
  by (simp add: same_inputs_def)

lemma same_inputs_trans: "same_inputs s s1 \<Longrightarrow> same_inputs s1 s2 \<Longrightarrow> same_inputs s s2"
  by (simp add: same_inputs_def)

lemma same_inputs_length: "same_inputs s s' \<Longrightarrow> length (heap s') = length (heap s)"
  unfolding same_inputs_def using length_map by metis

lemma same_inputs_nth:
  "same_inputs s s' \<Longrightarrow> i < length (heap s) \<Longrightarrow>
     node_type (heap s' ! i) = node_type (heap s ! i) \<and>
     arc_list (heap s' ! i) = arc_list (heap s ! i) \<and>
     name (heap s' ! i) = name (heap s ! i)"
proof -
  assume a: "same_inputs s s'" and i: "i < length (heap s)"
  have l: "i < length (heap s')" using same_inputs_length[OF a] i by simp
  have "map node_type (heap s') ! i = map node_type (heap s) ! i"
       "map arc_list (heap s') ! i = map arc_list (heap s) ! i"
       "map name (heap s') ! i = map name (heap s) ! i"
    using a by (simp_all add: same_inputs_def)
  then show ?thesis using i l by simp
qed

lemma map_update_same:
  "f (g (h ! a)) = f (h ! a) \<Longrightarrow> map f (h[a := g (h ! a)]) = map f h"
  by (simp add: map_update list_update_same_conv nth_map [symmetric] del: nth_map)
     (metis length_map list_update_beyond list_update_id not_le_imp_less nth_map)

lemma same_inputs_upd:
  "(\<And>x. node_type (f x) = node_type x \<and> arc_list (f x) = arc_list x \<and> name (f x) = name x)
     \<Longrightarrow> same_inputs s (upd s a f)"
  by (simp add: same_inputs_def upd_def map_update_same)

lemma same_inputs_next_generation: "same_inputs s (snd (next_generation s))"
  by (simp add: same_inputs_def next_generation_def)

lemma map_compress:
  "(\<And>x r. f (x\<lparr>forward := r\<rparr>) = f x) \<Longrightarrow> map f (compress h p r) = map f h"
  by (induction p arbitrary: h) (simp_all add: map_update_same)

lemma same_inputs_dereference:
  "dereference s n = Inr (r, s') \<Longrightarrow> same_inputs s s'"
  by (auto simp: dereference_def same_inputs_def map_compress split: sum.splits)

lemma same_inputs_forward_leaf: "same_inputs s (forward_leaf s a b)"
proof -
  define s1 where "s1 = upd s a (\<lambda>n. n\<lparr>forward := Some b\<rparr>)"
  define s2 where "s2 = snd (next_generation s1)"
  have 1: "same_inputs s s1" unfolding s1_def by (rule same_inputs_upd) simp
  have 2: "same_inputs s1 s2" unfolding s2_def by (rule same_inputs_next_generation)
  have 3: "same_inputs s2 (upd s2 a (\<lambda>n. n\<lparr>generation := fst (next_generation s1)\<rparr>))"
    by (rule same_inputs_upd) simp
  have "forward_leaf s a b = upd s2 a (\<lambda>n. n\<lparr>generation := fst (next_generation s1)\<rparr>)"
    by (simp add: forward_leaf_def s1_def s2_def Let_def split_beta)
  then show ?thesis using 1 2 3 same_inputs_trans by metis
qed

lemma same_inputs_merge_complement: "same_inputs s (merge_complement s a b new)"
proof -
  define s1 where "s1 = upd s a (\<lambda>n. n\<lparr>comp_arc_list := comp_arc_list n @ new\<rparr>)"
  define s2 where "s2 = snd (next_generation s1)"
  define s3 where "s3 = upd s2 a (\<lambda>n. n\<lparr>generation := fst (next_generation s1)\<rparr>)"
  have 1: "same_inputs s s1" unfolding s1_def by (rule same_inputs_upd) simp
  have 2: "same_inputs s1 s2" unfolding s2_def by (rule same_inputs_next_generation)
  have 3: "same_inputs s2 s3" unfolding s3_def by (rule same_inputs_upd) simp
  have 4: "same_inputs s3 (upd s3 a (\<lambda>n. n\<lparr>forward := Some b\<rparr>))"
    by (rule same_inputs_upd) simp
  have "merge_complement s a b new = upd s3 a (\<lambda>n. n\<lparr>forward := Some b\<rparr>)"
    by (simp add: merge_complement_def s1_def s2_def s3_def Let_def split_beta)
  then show ?thesis using 1 2 3 4 same_inputs_trans by metis
qed

lemma for_shared_same_inputs:
  assumes rec: "\<And>s a b res s'. rec s a b = Some (res, s') \<Longrightarrow> same_inputs s s'"
  shows "for_shared rec s d arcs = Some (res, s') \<Longrightarrow> same_inputs s s'"
proof (induction arcs arbitrary: s)
  case Nil
  then show ?case by simp
next
  case (Cons arc rest)
  show ?case
  proof (cases "find_arc (label arc) (arc_list (heap s ! d))")
    case None
    then show ?thesis using Cons by simp
  next
    case (Some arc1)
    show ?thesis
    proof (cases "rec s (val arc1) (val arc)")
      case None
      then show ?thesis using Cons.prems Some by simp
    next
      case (Some p)
      obtain r1 s1 where p: "p = (r1, s1)" by (cases p)
      have a: "same_inputs s s1" using rec Some p by blast
      show ?thesis
      proof (cases r1)
        case (Inl e)
        then show ?thesis using Cons.prems \<open>find_arc _ _ = Some arc1\<close> Some p a by simp
      next
        case (Inr b)
        then have "for_shared rec s1 d rest = Some (res, s')"
          using Cons.prems \<open>find_arc _ _ = Some arc1\<close> Some p by simp
        from Cons.IH[OF this] a show ?thesis by (rule same_inputs_trans[rotated])
      qed
    qed
  qed
qed

lemma unify_core_same_inputs:
  "unify_core k s n1 n2 = Some (res, s') \<Longrightarrow> same_inputs s s'"
proof (induction k arbitrary: s n1 n2 res s')
  case 0
  then show ?case by simp
next
  case (Suc k)
  show ?case
  proof (cases "dereference s n1")
    case (Inl e)
    then show ?thesis using Suc.prems by simp
  next
    case (Inr p1)
    obtain d1 s1 where p1: "p1 = (d1, s1)" by (cases p1)
    have a1: "same_inputs s s1" using Inr p1 same_inputs_dereference by blast
    show ?thesis
    proof (cases "dereference s1 n2")
      case (Inl e)
      then show ?thesis using Suc.prems Inr p1 a1 by simp
    next
      case (Inr p2)
      obtain d2 s2 where p2: "p2 = (d2, s2)" by (cases p2)
      have a2: "same_inputs s s2"
        using Inr p2 same_inputs_dereference a1 same_inputs_trans by blast
      have fl: "\<And>a b. same_inputs s (forward_leaf s2 a b)"
        using a2 same_inputs_forward_leaf same_inputs_trans by blast
      have mc: "\<And>t a b new. same_inputs s2 t \<Longrightarrow> same_inputs s (merge_complement t a b new)"
        using a2 same_inputs_merge_complement same_inputs_trans by blast
      have loop: "\<And>arcs r t. for_shared (unify_core k) s2 d1 arcs = Some (r, t)
          \<Longrightarrow> same_inputs s2 t"
        by (rule for_shared_same_inputs[of "unify_core k"]) (rule Suc.IH)
      note d = \<open>dereference s n1 = Inr p1\<close> p1 Inr p2
      show ?thesis
      proof (cases "d1 = d2")
        case True
        then show ?thesis using Suc.prems d a2 by simp
      next
        case ne: False
        show ?thesis
        proof (cases "is_leaf_node (heap s2 ! d1) \<or> is_leaf_node (heap s2 ! d2)")
          case True
          then show ?thesis using Suc.prems d a2 fl ne
            by (auto split: if_splits)
        next
          case nl: False
          define sh where
            "sh = intersect_arcs (arc_list (heap s2 ! d1)) (arc_list (heap s2 ! d2))"
          define nw where
            "nw = complement_arcs (arc_list (heap s2 ! d2)) (arc_list (heap s2 ! d1))"
          show ?thesis
          proof (cases "sh = []")
            case True
            then have "s' = merge_complement s2 d1 d2 nw"
              using Suc.prems d ne nl by (simp add: sh_def nw_def Let_def)
            then show ?thesis using mc[of s2] by simp
          next
            case False
            then obtain r t where
              f: "for_shared (unify_core k) s2 d1 sh = Some (r, t)"
              using Suc.prems d ne nl
              by (cases "for_shared (unify_core k) s2 d1 sh")
                 (auto simp: sh_def nw_def Let_def)
            have t: "same_inputs s2 t" using f by (rule loop)
            have "s' = t \<or> s' = merge_complement t d1 d2 nw"
              using Suc.prems d ne nl False f
              by (cases r) (auto simp: sh_def nw_def Let_def)
            then show ?thesis using t mc[OF t] a2 same_inputs_trans by blast
          qed
        qed
      qed
    qed
  qed
qed

section \<open>The merge of two complex nodes\<close>

lemma dereference_nth:
  assumes d: "dereference s n = Inr (r, s')" and i: "i < length (heap s)"
  shows "heap s' ! i = heap s ! i \<or>
         (forward (heap s ! i) \<noteq> None \<and> heap s' ! i = (heap s ! i)\<lparr>forward := Some r\<rparr>)"
proof -
  from dereference_Inr[OF d] obtain ns where
    fp: "fwd_path (heap s) n ns r" and s': "s' = s\<lparr>heap := compress (heap s) ns r\<rparr>" by blast
  show ?thesis
  proof (cases "i \<in> set ns")
    case True
    then show ?thesis using fwd_path_mem[OF fp True] i by (simp add: s' nth_compress)
  next
    case False
    then show ?thesis using i by (simp add: s' nth_compress)
  qed
qed

lemma dereference_rep_untouched:
  "dereference s n = Inr (r, s') \<Longrightarrow> i < length (heap s) \<Longrightarrow> forward (heap s ! i) = None
     \<Longrightarrow> heap s' ! i = heap s ! i"
  using dereference_nth by blast

lemma dereference_result:
  assumes d: "dereference s n = Inr (r, s')"
  shows "r < length (heap s) \<and> forward (heap s ! r) = None \<and> heap s' ! r = heap s ! r \<and>
         length (heap s') = length (heap s) \<and> counter s' = counter s \<and>
         structure_sharing s' = structure_sharing s \<and> shared_structures s' = shared_structures s"
proof -
  from dereference_Inr[OF d] obtain ns where
    fp: "fwd_path (heap s) n ns r" and s': "s' = s\<lparr>heap := compress (heap s) ns r\<rparr>" by blast
  have e: "r < length (heap s)" "forward (heap s ! r) = None" using fwd_path_end[OF fp] by simp_all
  have "heap s' ! r = heap s ! r" using d e by (rule dereference_rep_untouched)
  then show ?thesis using e by (simp add: s')
qed

lemma merge_complement_eq:
  "merge_complement s d1 d2 new =
     s\<lparr>heap := (heap s)[d1 := (heap s ! d1)\<lparr>comp_arc_list := comp_arc_list (heap s ! d1) @ new,
                                         generation := counter s + 1, forward := Some d2\<rparr>],
       counter := counter s + 1\<rparr>"
proof (cases "d1 < length (heap s)")
  case True
  then show ?thesis
    by (simp add: merge_complement_def upd_def next_generation_def Let_def)
next
  case False
  then have "length (heap s) \<le> d1" by simp
  then show ?thesis
    by (simp add: merge_complement_def upd_def next_generation_def Let_def list_update_beyond)
qed

lemma forward_leaf_eq:
  "forward_leaf s a b =
     s\<lparr>heap := (heap s)[a := (heap s ! a)\<lparr>forward := Some b, generation := counter s + 1\<rparr>],
       counter := counter s + 1\<rparr>"
proof (cases "a < length (heap s)")
  case True
  then show ?thesis by (simp add: forward_leaf_def upd_def next_generation_def Let_def)
next
  case False
  then have "length (heap s) \<le> a" by simp
  then show ?thesis
    by (simp add: forward_leaf_def upd_def next_generation_def Let_def list_update_beyond)
qed

lemma complex_not_leaf: "is_complex_node x \<Longrightarrow> \<not> is_leaf_node x"
  by (simp add: is_complex_node_def is_leaf_node_def)

lemma dereference_twice:
  assumes d1: "dereference s n1 = Inr (d1, s1)" and d2: "dereference s1 n2 = Inr (d2, s2)"
  shows "d1 < length (heap s) \<and> d2 < length (heap s) \<and>
         heap s2 ! d1 = heap s ! d1 \<and> heap s2 ! d2 = heap s ! d2 \<and>
         forward (heap s ! d1) = None \<and> forward (heap s ! d2) = None \<and>
         length (heap s1) = length (heap s) \<and> length (heap s2) = length (heap s) \<and>
         counter s2 = counter s \<and> structure_sharing s2 = structure_sharing s \<and>
         shared_structures s2 = shared_structures s"
proof -
  note r1 = dereference_result[OF d1] and r2 = dereference_result[OF d2]
  have l1: "d1 < length (heap s)" and l2: "d2 < length (heap s)" using r1 r2 by simp_all
  have len1: "length (heap s1) = length (heap s)" using r1 by simp
  have e1: "heap s1 ! d1 = heap s ! d1" and f1: "forward (heap s1 ! d1) = None"
    using r1 by simp_all
  have e1': "heap s2 ! d1 = heap s ! d1"
    using dereference_rep_untouched[OF d2 _ f1] l1 len1 e1 by simp
  have f2: "forward (heap s1 ! d2) = None" and e2': "heap s2 ! d2 = heap s1 ! d2"
    using r2 by simp_all
  have e2: "heap s1 ! d2 = heap s ! d2"
    using dereference_nth[OF d1 l2] f2 by auto
  show ?thesis using r1 r2 l1 l2 e1' e2 e2' f2 by simp
qed

text \<open>
  C10. Let the operands dereference to two different complex nodes \<open>d1\<close> and \<open>d2\<close> whose
  arc lists share no label. Then \<open>unify_core\<close> succeeds at every depth allowed, and the heap
  it leaves is the heap left by the two dereferences with one node rewritten: \<open>d1\<close>, which
  gets the arcs of \<open>d2\<close> appended to its \<open>comp_arc_list\<close>, the next generation and the forward
  to \<open>d2\<close>. The node \<open>d2\<close> is unchanged in every field, no \<open>arc_list\<close> of any node changes,
  and a node other than \<open>d1\<close> is unchanged unless it lay on a forward chain of an operand,
  in which case only its forward was redirected by path compression.
\<close>

theorem disjoint_merge_frame:
  assumes d1: "dereference s n1 = Inr (d1, s1)" and d2: "dereference s1 n2 = Inr (d2, s2)"
    and ne: "d1 \<noteq> d2"
    and c1: "is_complex_node (heap s ! d1)" and c2: "is_complex_node (heap s ! d2)"
    and disj: "set (map label (arc_list (heap s ! d1))) \<inter>
               set (map label (arc_list (heap s ! d2))) = {}"
  shows "\<exists>s'. unify_core (Suc k) s n1 n2 = Some (Inr True, s') \<and>
     heap s' = (heap s2)[d1 := (heap s ! d1)\<lparr>
        comp_arc_list := comp_arc_list (heap s ! d1) @ arc_list (heap s ! d2),
        generation := counter s + 1, forward := Some d2\<rparr>] \<and>
     counter s' = counter s + 1 \<and> length (heap s') = length (heap s) \<and>
     heap s' ! d2 = heap s ! d2 \<and>
     (\<forall>i < length (heap s). arc_list (heap s' ! i) = arc_list (heap s ! i)) \<and>
     (\<forall>i < length (heap s). i \<noteq> d1 \<longrightarrow>
        heap s' ! i = heap s ! i \<or>
        (forward (heap s ! i) \<noteq> None \<and>
         (heap s' ! i = (heap s ! i)\<lparr>forward := Some d1\<rparr> \<or>
          heap s' ! i = (heap s ! i)\<lparr>forward := Some d2\<rparr>)))"
proof -
  note t = dereference_twice[OF d1 d2]
  have l1: "d1 < length (heap s)" and len1: "length (heap s1) = length (heap s)"
    and len2: "length (heap s2) = length (heap s)"
    and e1: "heap s2 ! d1 = heap s ! d1" and e2: "heap s2 ! d2 = heap s ! d2"
    and c: "counter s2 = counter s"
    using t by simp_all
  have sh: "intersect_arcs (arc_list (heap s ! d1)) (arc_list (heap s ! d2)) = []"
    using disj by (auto simp: intersect_arcs_filter filter_empty_conv)
  have nw: "complement_arcs (arc_list (heap s ! d2)) (arc_list (heap s ! d1))
              = arc_list (heap s ! d2)"
    using disj by (auto simp: complement_arcs_filter filter_id_conv)
  define s' where "s' = merge_complement s2 d1 d2 (arc_list (heap s ! d2))"
  have run: "unify_core (Suc k) s n1 n2 = Some (Inr True, s')"
    using d1 d2 ne c1 c2 e1 e2 sh nw
    by (simp add: complex_not_leaf s'_def)
  have hp: "heap s' = (heap s2)[d1 := (heap s ! d1)\<lparr>
        comp_arc_list := comp_arc_list (heap s ! d1) @ arc_list (heap s ! d2),
        generation := counter s + 1, forward := Some d2\<rparr>]"
    by (simp add: s'_def merge_complement_eq e1 c)
  have cn: "counter s' = counter s + 1" by (simp add: s'_def merge_complement_eq c)
  have ln: "length (heap s') = length (heap s)" by (simp add: hp len2)
  have k2: "heap s' ! d2 = heap s ! d2" using ne e2 by (simp add: hp)
  have oth: "heap s' ! i = heap s ! i \<or>
        (forward (heap s ! i) \<noteq> None \<and>
         (heap s' ! i = (heap s ! i)\<lparr>forward := Some d1\<rparr> \<or>
          heap s' ! i = (heap s ! i)\<lparr>forward := Some d2\<rparr>))"
    if i: "i < length (heap s)" and n: "i \<noteq> d1" for i
  proof -
    have a: "heap s' ! i = heap s2 ! i" using n by (simp add: hp)
    have i1: "i < length (heap s1)" using i len1 by simp
    from dereference_nth[OF d1 i] dereference_nth[OF d2 i1]
    show ?thesis unfolding a by auto
  qed
  have arcs: "\<forall>i < length (heap s). arc_list (heap s' ! i) = arc_list (heap s ! i)"
  proof (intro allI impI)
    fix i assume i: "i < length (heap s)"
    show "arc_list (heap s' ! i) = arc_list (heap s ! i)"
    proof (cases "i = d1")
      case True
      then show ?thesis using l1 len2 by (simp add: hp)
    next
      case False
      from oth[OF i False] show ?thesis by auto
    qed
  qed
  show ?thesis using run hp cn ln k2 arcs oth by blast
qed

text \<open>The theorem at \<open>ex_disjoint\<close>: \<open>{f: X}\<close> at 2 with \<open>{g: Y}\<close> at 3.\<close>

theorem disjoint_merge_frame_witness:
  "dereference ex_disjoint 2 = Inr (2, ex_disjoint) \<and>
   dereference ex_disjoint 3 = Inr (3, ex_disjoint) \<and> (2::nat) \<noteq> 3 \<and>
   is_complex_node (heap ex_disjoint ! 2) \<and> is_complex_node (heap ex_disjoint ! 3) \<and>
   set (map label (arc_list (heap ex_disjoint ! 2))) \<inter>
   set (map label (arc_list (heap ex_disjoint ! 3))) = {} \<and>
   (\<exists>s'. unify_core (Suc 0) ex_disjoint 2 3 = Some (Inr True, s') \<and>
     heap s' = (heap ex_disjoint)[2 := (heap ex_disjoint ! 2)\<lparr>
        comp_arc_list := comp_arc_list (heap ex_disjoint ! 2) @ arc_list (heap ex_disjoint ! 3),
        generation := counter ex_disjoint + 1, forward := Some 3\<rparr>] \<and>
     counter s' = counter ex_disjoint + 1 \<and> length (heap s') = length (heap ex_disjoint) \<and>
     heap s' ! 3 = heap ex_disjoint ! 3 \<and>
     (\<forall>i < length (heap ex_disjoint). arc_list (heap s' ! i) = arc_list (heap ex_disjoint ! i)) \<and>
     (\<forall>i < length (heap ex_disjoint). i \<noteq> 2 \<longrightarrow>
        heap s' ! i = heap ex_disjoint ! i \<or>
        (forward (heap ex_disjoint ! i) \<noteq> None \<and>
         (heap s' ! i = (heap ex_disjoint ! i)\<lparr>forward := Some 2\<rparr> \<or>
          heap s' ! i = (heap ex_disjoint ! i)\<lparr>forward := Some 3\<rparr>))))"
proof -
  have h1: "dereference ex_disjoint 2 = Inr (2, ex_disjoint)" by code_simp
  have h2: "dereference ex_disjoint 3 = Inr (3, ex_disjoint)" by code_simp
  have h3: "(2::nat) \<noteq> 3" by simp
  have h4: "is_complex_node (heap ex_disjoint ! 2)" by code_simp
  have h5: "is_complex_node (heap ex_disjoint ! 3)" by code_simp
  have h6: "set (map label (arc_list (heap ex_disjoint ! 2))) \<inter>
            set (map label (arc_list (heap ex_disjoint ! 3))) = {}"
    by (simp add: ex_disjoint_def DGNode_init_def)
  from disjoint_merge_frame[OF h1 h2 h3 h4 h5 h6, of 0]
  show ?thesis using h1 h2 h4 h5 h6 by simp
qed

section \<open>The loop over the shared arcs\<close>

lemma for_shared_append:
  "for_shared rec s d (xs @ ys) =
     (case for_shared rec s d xs of
        None \<Rightarrow> None
      | Some (Inl e, t) \<Rightarrow> Some (Inl e, t)
      | Some (Inr u, t) \<Rightarrow> for_shared rec t d ys)"
proof (induction xs arbitrary: s)
  case Nil
  then show ?case by simp
next
  case (Cons arc xs)
  show ?case
  proof (cases "find_arc (label arc) (arc_list (heap s ! d))")
    case None
    then show ?thesis using Cons.IH by simp
  next
    case (Some arc1)
    then show ?thesis using Cons.IH
      by (auto split: option.splits sum.splits prod.splits)
  qed
qed

lemma unify_core_nonleaf:
  assumes d1: "dereference s n1 = Inr (d1, s1)" and d2: "dereference s1 n2 = Inr (d2, s2)"
    and ne: "d1 \<noteq> d2"
    and nl1: "\<not> is_leaf_node (heap s ! d1)" and nl2: "\<not> is_leaf_node (heap s ! d2)"
  shows "unify_core (Suc k) s n1 n2 =
     (case for_shared (unify_core k) s2 d1
             (intersect_arcs (arc_list (heap s ! d1)) (arc_list (heap s ! d2))) of
        None \<Rightarrow> None
      | Some (Inl e, t) \<Rightarrow> Some (Inl e, t)
      | Some (Inr u, t) \<Rightarrow>
          Some (Inr True, merge_complement t d1 d2
                  (complement_arcs (arc_list (heap s ! d2)) (arc_list (heap s ! d1)))))"
proof -
  note t = dereference_twice[OF d1 d2]
  have e: "heap s2 ! d1 = heap s ! d1" "heap s2 ! d2 = heap s ! d2" using t by simp_all
  show ?thesis
  proof (cases "intersect_arcs (arc_list (heap s ! d1)) (arc_list (heap s ! d2)) = []")
    case True
    then show ?thesis using d1 d2 ne nl1 nl2 e by simp
  next
    case False
    then show ?thesis using d1 d2 ne nl1 nl2 e by (simp add: Let_def)
  qed
qed

lemma unify_core_nonleaf_step:
  assumes d1: "dereference s n1 = Inr (d1, s1)" and d2: "dereference s1 n2 = Inr (d2, s2)"
    and ne: "d1 \<noteq> d2"
    and nl1: "\<not> is_leaf_node (heap s2 ! d1)" and nl2: "\<not> is_leaf_node (heap s2 ! d2)"
    and run: "unify_core (Suc k) s n1 n2 = Some (res, s')"
  shows "\<exists>t. same_inputs s2 t \<and>
           ((\<exists>e. res = Inl e \<and> s' = t) \<or>
            (res = Inr True \<and>
             s' = merge_complement t d1 d2
                    (complement_arcs (arc_list (heap s2 ! d2)) (arc_list (heap s2 ! d1)))))"
proof -
  note tw = dereference_twice[OF d1 d2]
  have e: "heap s2 ! d1 = heap s ! d1" "heap s2 ! d2 = heap s ! d2" using tw by simp_all
  define sh where "sh = intersect_arcs (arc_list (heap s ! d1)) (arc_list (heap s ! d2))"
  note u = unify_core_nonleaf[OF d1 d2 ne nl1[unfolded e] nl2[unfolded e], of k,
      folded sh_def]
  obtain r t where f: "for_shared (unify_core k) s2 d1 sh = Some (r, t)"
    using run u by (cases "for_shared (unify_core k) s2 d1 sh") auto
  have t: "same_inputs s2 t"
    using f by (rule for_shared_same_inputs[of "unify_core k", rotated])
               (rule unify_core_same_inputs)
  show ?thesis using run u f t e by (cases r) auto
qed

lemma unify_core_never_False: "unify_core k s n1 n2 \<noteq> Some (Inr False, s')"
proof (cases k)
  case 0
  then show ?thesis by simp
next
  case (Suc j)
  then show ?thesis
    by (auto simp: Let_def split: sum.splits prod.splits option.splits if_splits)
qed

text \<open>
  C6, as the source has it. Let the operands dereference to two different nodes \<open>d1\<close> and
  \<open>d2\<close>, neither of them a leaf, and let \<open>unify_core\<close> succeed. Then the loop over the shared
  arcs has ended in a state \<open>t\<close>, and the heap returned is the heap of \<open>t\<close> with one node
  rewritten: \<open>d1\<close>, whose \<open>comp_arc_list\<close> is the one it holds in \<open>t\<close> extended by the
  complement arcs (the arcs of \<open>d2\<close> whose label \<open>d1\<close> does not have), whose generation is
  the counter advanced by one and whose forward is \<open>d2\<close>. The complement arcs are held by
  the node that received the forward, not by the node \<open>d2\<close> it forwards to.
\<close>

theorem complement_arcs_on_forwarded_node:
  assumes d1: "dereference s n1 = Inr (d1, s1)" and d2: "dereference s1 n2 = Inr (d2, s2)"
    and ne: "d1 \<noteq> d2"
    and nl1: "\<not> is_leaf_node (heap s ! d1)" and nl2: "\<not> is_leaf_node (heap s ! d2)"
    and run: "unify_core (Suc k) s n1 n2 = Some (Inr True, s')"
  shows "\<exists>t. for_shared (unify_core k) s2 d1
               (intersect_arcs (arc_list (heap s ! d1)) (arc_list (heap s ! d2)))
             = Some (Inr (), t) \<and>
           heap s2 ! d1 = heap s ! d1 \<and> d1 < length (heap t) \<and>
           heap s' = (heap t)[d1 := (heap t ! d1)\<lparr>
              comp_arc_list := comp_arc_list (heap t ! d1) @
                 complement_arcs (arc_list (heap s ! d2)) (arc_list (heap s ! d1)),
              generation := counter t + 1, forward := Some d2\<rparr>] \<and>
           counter s' = counter t + 1 \<and>
           comp_arc_list (heap s' ! d1) = comp_arc_list (heap t ! d1) @
              complement_arcs (arc_list (heap s ! d2)) (arc_list (heap s ! d1)) \<and>
           forward (heap s' ! d1) = Some d2 \<and> generation (heap s' ! d1) = counter s'"
proof -
  note tw = dereference_twice[OF d1 d2]
  have e1: "heap s2 ! d1 = heap s ! d1" and l1: "d1 < length (heap s2)"
    using tw by simp_all
  define sh where "sh = intersect_arcs (arc_list (heap s ! d1)) (arc_list (heap s ! d2))"
  define nw where "nw = complement_arcs (arc_list (heap s ! d2)) (arc_list (heap s ! d1))"
  note u = unify_core_nonleaf[OF d1 d2 ne nl1 nl2, of k, folded sh_def nw_def]
  obtain r t where f: "for_shared (unify_core k) s2 d1 sh = Some (r, t)"
    using run u by (cases "for_shared (unify_core k) s2 d1 sh") auto
  have r: "r = Inr ()" and s': "s' = merge_complement t d1 d2 nw"
    using run u f by (cases r; simp)+
  have si: "same_inputs s2 t"
    using f by (rule for_shared_same_inputs[of "unify_core k", rotated])
               (rule unify_core_same_inputs)
  have lt: "d1 < length (heap t)" using same_inputs_length[OF si] l1 by simp
  have hp: "heap s' = (heap t)[d1 := (heap t ! d1)\<lparr>
              comp_arc_list := comp_arc_list (heap t ! d1) @ nw,
              generation := counter t + 1, forward := Some d2\<rparr>]"
    and cn: "counter s' = counter t + 1"
    by (simp_all add: s' merge_complement_eq)
  have fields: "comp_arc_list (heap s' ! d1) = comp_arc_list (heap t ! d1) @ nw"
    "forward (heap s' ! d1) = Some d2" "generation (heap s' ! d1) = counter s'"
    using lt by (simp_all add: hp cn)
  show ?thesis using f r e1 lt hp cn fields unfolding sh_def nw_def by blast
qed

text \<open>
  The theorem at \<open>ex_holding\<close>, where node 4 already holds the complement arc \<open>h\<close> and the
  call recurses on the shared label \<open>f\<close>: afterwards node 4 holds \<open>h\<close> and \<open>g\<close>.
\<close>

theorem complement_arcs_on_forwarded_node_witness:
  "dereference ex_holding 4 = Inr (4, ex_holding) \<and>
   dereference ex_holding 5 = Inr (5, ex_holding) \<and> (4::nat) \<noteq> 5 \<and>
   \<not> is_leaf_node (heap ex_holding ! 4) \<and> \<not> is_leaf_node (heap ex_holding ! 5) \<and>
   unify_core (Suc 1) ex_holding 4 5 = Some (Inr True, ex_holding_after) \<and>
   comp_arc_list (heap ex_holding ! 4) = [\<lparr>label = ''h'', val = 3\<rparr>] \<and>
   comp_arc_list (heap ex_holding_after ! 4) =
     [\<lparr>label = ''h'', val = 3\<rparr>, \<lparr>label = ''g'', val = 2\<rparr>] \<and>
   (\<exists>t. for_shared (unify_core 1) ex_holding 4
               (intersect_arcs (arc_list (heap ex_holding ! 4)) (arc_list (heap ex_holding ! 5)))
             = Some (Inr (), t) \<and>
           heap ex_holding ! 4 = heap ex_holding ! 4 \<and> 4 < length (heap t) \<and>
           heap ex_holding_after = (heap t)[4 := (heap t ! 4)\<lparr>
              comp_arc_list := comp_arc_list (heap t ! 4) @
                 complement_arcs (arc_list (heap ex_holding ! 5)) (arc_list (heap ex_holding ! 4)),
              generation := counter t + 1, forward := Some 5\<rparr>] \<and>
           counter ex_holding_after = counter t + 1 \<and>
           comp_arc_list (heap ex_holding_after ! 4) = comp_arc_list (heap t ! 4) @
              complement_arcs (arc_list (heap ex_holding ! 5)) (arc_list (heap ex_holding ! 4)) \<and>
           forward (heap ex_holding_after ! 4) = Some 5 \<and>
           generation (heap ex_holding_after ! 4) = counter ex_holding_after)"
proof -
  have h1: "dereference ex_holding 4 = Inr (4, ex_holding)" by code_simp
  have h2: "dereference ex_holding 5 = Inr (5, ex_holding)" by code_simp
  have h3: "(4::nat) \<noteq> 5" by simp
  have h4: "\<not> is_leaf_node (heap ex_holding ! 4)" by code_simp
  have h5: "\<not> is_leaf_node (heap ex_holding ! 5)" by code_simp
  have h6: "unify_core (Suc 1) ex_holding 4 5 = Some (Inr True, ex_holding_after)"
    by code_simp
  have h7: "comp_arc_list (heap ex_holding ! 4) = [\<lparr>label = ''h'', val = 3\<rparr>]" by code_simp
  have h8: "comp_arc_list (heap ex_holding_after ! 4) =
     [\<lparr>label = ''h'', val = 3\<rparr>, \<lparr>label = ''g'', val = 2\<rparr>]" by code_simp
  from complement_arcs_on_forwarded_node[OF h1 h2 h3 h4 h5 h6]
  show ?thesis using h1 h2 h3 h4 h5 h6 h7 h8 by blast
qed

text \<open>
  C6 as the claim words it fails on \<open>ex_disjoint\<close>: after \<open>unify_core\<close> of 2 with 3 both
  operands dereference to node 3, the node without forward, and its \<open>comp_arc_list\<close> is
  empty; the complement arc \<open>g\<close> is in the \<open>comp_arc_list\<close> of node 2, which forwards to 3.
\<close>

theorem representative_owns_comp_arcs_counterexample:
  "(case unify_core 1 ex_disjoint 2 3 of
      Some (Inr ok, s') \<Rightarrow>
        ok \<and> dereference s' 2 = Inr (3, s') \<and> dereference s' 3 = Inr (3, s') \<and>
        comp_arc_list (heap s' ! 3) = [] \<and>
        comp_arc_list (heap s' ! 2) = [\<lparr>label = ''g'', val = 1\<rparr>] \<and>
        forward (heap s' ! 2) = Some 3
    | _ \<Rightarrow> False)"
  by code_simp

section \<open>The order of the recursion\<close>

lemma find_arc_Some:
  "l \<in> set (map label arcs) \<Longrightarrow> \<exists>a. find_arc l arcs = Some a \<and> label a = l \<and> a \<in> set arcs"
  by (induction arcs) auto

text \<open>
  C5, as the source has it. \<open>intersect_arcs arcs1 arcs2\<close> returns the arcs of its second
  argument whose label occurs in the first, in the order of the second argument, and the
  labels of the result are the shared labels in that order. In \<open>unify_core\<close>, for operands
  that dereference to two different nodes \<open>d1\<close> and \<open>d2\<close>, neither a leaf: when \<open>arc\<close> is
  the first arc of \<open>d2\<close>, in the order of the \<open>arc_list\<close> of \<open>d2\<close>, whose label \<open>d1\<close> has too,
  the first recursive call unifies the child of \<open>d1\<close> under that label with the child of
  \<open>arc\<close>; an exception of that call ends \<open>unify_core\<close>, and otherwise the loop goes on with
  the remaining shared arcs of \<open>d2\<close>, in their order, before the complement arcs are
  written. The recursion follows the arc order of the second operand.
\<close>

theorem intersect_arcs_second_operand:
  "intersect_arcs arcs1 arcs2 = filter (\<lambda>arc2. label arc2 \<in> set (map label arcs1)) arcs2 \<and>
   map label (intersect_arcs arcs1 arcs2) =
     filter (\<lambda>l. l \<in> set (map label arcs1)) (map label arcs2) \<and>
   (\<forall>k s n1 n2 d1 s1 d2 s2 arc rest.
      dereference s n1 = Inr (d1, s1) \<longrightarrow> dereference s1 n2 = Inr (d2, s2) \<longrightarrow> d1 \<noteq> d2 \<longrightarrow>
      \<not> is_leaf_node (heap s ! d1) \<longrightarrow> \<not> is_leaf_node (heap s ! d2) \<longrightarrow>
      filter (\<lambda>arc2. label arc2 \<in> set (map label (arc_list (heap s ! d1))))
             (arc_list (heap s ! d2)) = arc # rest \<longrightarrow>
      (\<exists>arc1. find_arc (label arc) (arc_list (heap s ! d1)) = Some arc1 \<and>
         unify_core (Suc k) s n1 n2 =
           (case unify_core k s2 (val arc1) (val arc) of
              None \<Rightarrow> None
            | Some (Inl e, t) \<Rightarrow> Some (Inl e, t)
            | Some (Inr b, t) \<Rightarrow>
                (case for_shared (unify_core k) t d1 rest of
                   None \<Rightarrow> None
                 | Some (Inl e, t') \<Rightarrow> Some (Inl e, t')
                 | Some (Inr u, t') \<Rightarrow>
                     Some (Inr True, merge_complement t' d1 d2
                       (complement_arcs (arc_list (heap s ! d2)) (arc_list (heap s ! d1))))))))"
proof (intro conjI allI impI)
  show "intersect_arcs arcs1 arcs2 = filter (\<lambda>arc2. label arc2 \<in> set (map label arcs1)) arcs2"
    by (simp add: intersect_arcs_filter)
next
  show "map label (intersect_arcs arcs1 arcs2) =
     filter (\<lambda>l. l \<in> set (map label arcs1)) (map label arcs2)"
    by (simp add: intersect_arcs_filter filter_map comp_def)
next
  fix k s n1 n2 d1 s1 d2 s2 arc rest
  assume d1: "dereference s n1 = Inr (d1, s1)" and d2: "dereference s1 n2 = Inr (d2, s2)"
    and ne: "d1 \<noteq> d2"
    and nl1: "\<not> is_leaf_node (heap s ! d1)" and nl2: "\<not> is_leaf_node (heap s ! d2)"
    and sh: "filter (\<lambda>arc2. label arc2 \<in> set (map label (arc_list (heap s ! d1))))
             (arc_list (heap s ! d2)) = arc # rest"
  have "arc \<in> set (filter (\<lambda>arc2. label arc2 \<in> set (map label (arc_list (heap s ! d1))))
             (arc_list (heap s ! d2)))"
    unfolding sh by simp
  then have "label arc \<in> set (map label (arc_list (heap s ! d1)))" by simp
  from find_arc_Some[OF this] obtain arc1 where
    fa: "find_arc (label arc) (arc_list (heap s ! d1)) = Some arc1" by blast
  have e: "heap s2 ! d1 = heap s ! d1" using dereference_twice[OF d1 d2] by simp
  have sh': "intersect_arcs (arc_list (heap s ! d1)) (arc_list (heap s ! d2)) = arc # rest"
    using sh by (simp add: intersect_arcs_filter)
  have "unify_core (Suc k) s n1 n2 =
           (case unify_core k s2 (val arc1) (val arc) of
              None \<Rightarrow> None
            | Some (Inl e, t) \<Rightarrow> Some (Inl e, t)
            | Some (Inr b, t) \<Rightarrow>
                (case for_shared (unify_core k) t d1 rest of
                   None \<Rightarrow> None
                 | Some (Inl e, t') \<Rightarrow> Some (Inl e, t')
                 | Some (Inr u, t') \<Rightarrow>
                     Some (Inr True, merge_complement t' d1 d2
                       (complement_arcs (arc_list (heap s ! d2)) (arc_list (heap s ! d1))))))"
    unfolding unify_core_nonleaf[OF d1 d2 ne nl1 nl2] sh'
    using fa e by (auto split: option.splits sum.splits prod.splits)
  then show "\<exists>arc1. find_arc (label arc) (arc_list (heap s ! d1)) = Some arc1 \<and>
         unify_core (Suc k) s n1 n2 =
           (case unify_core k s2 (val arc1) (val arc) of
              None \<Rightarrow> None
            | Some (Inl e, t) \<Rightarrow> Some (Inl e, t)
            | Some (Inr b, t) \<Rightarrow>
                (case for_shared (unify_core k) t d1 rest of
                   None \<Rightarrow> None
                 | Some (Inl e, t') \<Rightarrow> Some (Inl e, t')
                 | Some (Inr u, t') \<Rightarrow>
                     Some (Inr True, merge_complement t' d1 d2
                       (complement_arcs (arc_list (heap s ! d2)) (arc_list (heap s ! d1))))))"
    using fa by blast
qed

text \<open>
  The theorem at \<open>ex_dag\<close>, for node 3, \<open>{f: A, g: A}\<close>, and node 4, \<open>{g: B, f: {}}\<close>: the
  first shared arc of node 4 is \<open>g\<close>, so the first recursive call is on the leaves 0 and 1,
  and its \<open>UnificationFailure\<close> ends the call before the arc \<open>f\<close> is looked at.
\<close>

theorem intersect_arcs_second_operand_witness:
  "dereference ex_dag 3 = Inr (3, ex_dag) \<and> dereference ex_dag 4 = Inr (4, ex_dag) \<and>
   (3::nat) \<noteq> 4 \<and> \<not> is_leaf_node (heap ex_dag ! 3) \<and> \<not> is_leaf_node (heap ex_dag ! 4) \<and>
   filter (\<lambda>arc2. label arc2 \<in> set (map label (arc_list (heap ex_dag ! 3))))
          (arc_list (heap ex_dag ! 4)) = \<lparr>label = ''g'', val = 1\<rparr> # [\<lparr>label = ''f'', val = 2\<rparr>] \<and>
   find_arc ''g'' (arc_list (heap ex_dag ! 3)) = Some \<lparr>label = ''g'', val = 0\<rparr> \<and>
   unify_core 1 ex_dag 0 1 = Some (Inl UnificationFailure, ex_dag) \<and>
   unify_core (Suc 1) ex_dag 3 4 = Some (Inl UnificationFailure, ex_dag)"
proof -
  have h1: "dereference ex_dag 3 = Inr (3, ex_dag)" by code_simp
  have h2: "dereference ex_dag 4 = Inr (4, ex_dag)" by code_simp
  have h3: "(3::nat) \<noteq> 4" by simp
  have h4: "\<not> is_leaf_node (heap ex_dag ! 3)" by code_simp
  have h5: "\<not> is_leaf_node (heap ex_dag ! 4)" by code_simp
  have h6: "filter (\<lambda>arc2. label arc2 \<in> set (map label (arc_list (heap ex_dag ! 3))))
          (arc_list (heap ex_dag ! 4)) = \<lparr>label = ''g'', val = 1\<rparr> # [\<lparr>label = ''f'', val = 2\<rparr>]"
    by (simp add: ex_dag_def DGNode_init_def)
  have h7: "find_arc ''g'' (arc_list (heap ex_dag ! 3)) = Some \<lparr>label = ''g'', val = 0\<rparr>"
    by (simp add: ex_dag_def DGNode_init_def)
  have h8: "unify_core 1 ex_dag 0 1 = Some (Inl UnificationFailure, ex_dag)" by code_simp
  note ord = intersect_arcs_second_operand[of "[]" "[]", THEN conjunct2, THEN conjunct2,
      rule_format, OF h1 h2 h3 h4 h5 h6, of 1]
  then obtain arc1 where
    a: "find_arc (label \<lparr>label = ''g'', val = 1\<rparr>) (arc_list (heap ex_dag ! 3)) = Some arc1"
    and u: "unify_core (Suc 1) ex_dag 3 4 =
           (case unify_core 1 ex_dag (val arc1) (val \<lparr>label = ''g'', val = 1\<rparr>) of
              None \<Rightarrow> None
            | Some (Inl e, t) \<Rightarrow> Some (Inl e, t)
            | Some (Inr b, t) \<Rightarrow>
                (case for_shared (unify_core 1) t 3 [\<lparr>label = ''f'', val = 2\<rparr>] of
                   None \<Rightarrow> None
                 | Some (Inl e, t') \<Rightarrow> Some (Inl e, t')
                 | Some (Inr u, t') \<Rightarrow>
                     Some (Inr True, merge_complement t' 3 4
                       (complement_arcs (arc_list (heap ex_dag ! 4)) (arc_list (heap ex_dag ! 3))))))"
    by blast
  have "arc1 = \<lparr>label = ''g'', val = 0\<rparr>" using a h7 by simp
  then have "unify_core (Suc 1) ex_dag 3 4 = Some (Inl UnificationFailure, ex_dag)"
    using u h8 by (simp del: unify_core.simps)
  then show ?thesis using h1 h2 h3 h4 h5 h6 h7 h8 by blast
qed

text \<open>
  C5 as the claim words it (the arcs of the first list, in the order of the first list)
  fails for \<open>A = [f \<mapsto> 0, g \<mapsto> 1]\<close> and \<open>B = [g \<mapsto> 2, f \<mapsto> 3]\<close>: the source returns \<open>B\<close>.
\<close>

theorem intersect_arcs_first_operand_counterexample:
  "intersect_arcs [\<lparr>label = ''f'', val = 0\<rparr>, \<lparr>label = ''g'', val = 1\<rparr>]
                  [\<lparr>label = ''g'', val = 2\<rparr>, \<lparr>label = ''f'', val = 3\<rparr>]
     = [\<lparr>label = ''g'', val = 2\<rparr>, \<lparr>label = ''f'', val = 3\<rparr>] \<and>
   intersect_arcs [\<lparr>label = ''f'', val = 0\<rparr>, \<lparr>label = ''g'', val = 1\<rparr>]
                  [\<lparr>label = ''g'', val = 2\<rparr>, \<lparr>label = ''f'', val = 3\<rparr>]
     \<noteq> filter (\<lambda>a. label a \<in> set (map label [\<lparr>label = ''g'', val = 2\<rparr>, \<lparr>label = ''f'', val = 3\<rparr>]))
          [\<lparr>label = ''f'', val = 0\<rparr>, \<lparr>label = ''g'', val = 1\<rparr>]"
  by (simp add: intersect_arcs_def)

section \<open>Copy-out and the top level\<close>

lemma dereference_in_heap: "dereference s n = Inr (r, s') \<Longrightarrow> n < length (heap s)"
  using dereference_Inr fwd_path_start by blast

lemma copy_no_sharing:
  assumes "\<not> structure_sharing s" and "node < length (heap s)"
  shows "copy_with_comp_arcs s node =
     (Inr (length (heap s)),
      s\<lparr>heap := heap s @
         [\<lparr>node_type = node_type (heap s ! node),
           arc_list = arc_list (heap s ! node) @ comp_arc_list (heap s ! node),
           comp_arc_list = [], forward = None, copy = None, generation = 0, mark = None,
           name = name (heap s ! node)\<rparr>]\<rparr>)"
  using assms
  by (simp add: copy_with_comp_arcs_def alloc_def upd_def DGNode_init_def Let_def)

lemma copy_sharing:
  "structure_sharing s \<Longrightarrow> node < length (heap s) \<Longrightarrow>
     copy_with_comp_arcs s node = (Inl TypeError, s)"
  by (simp add: copy_with_comp_arcs_def weakset_contains_def hash_DGNode_def)

lemma copy_invalid:
  "\<not> node < length (heap s) \<Longrightarrow> copy_with_comp_arcs s node = (Inl InvalidReference, s)"
  by (simp add: copy_with_comp_arcs_def)

lemma copy_prefix:
  assumes c: "copy_with_comp_arcs s node = (res, t)"
  shows "res \<noteq> Inl UnificationFailure \<and> length (heap s) \<le> length (heap t) \<and>
         take (length (heap s)) (heap t) = heap s \<and> structure_sharing t = structure_sharing s"
proof (cases "node < length (heap s)")
  case False
  then show ?thesis using c by (auto simp: copy_invalid)
next
  case True
  show ?thesis
  proof (cases "structure_sharing s")
    case True
    then show ?thesis using c \<open>node < length (heap s)\<close> by (auto simp: copy_sharing)
  next
    case False
    then show ?thesis using c True by (auto simp: copy_no_sharing)
  qed
qed

lemma unify_cases:
  assumes u: "unify k s a b = Some (res, s')"
  shows "(\<exists>e. unify_core k s a b = Some (Inl e, s') \<and>
              res = (if e = UnificationFailure then Inr None else Inl e)) \<or>
         (\<exists>t cres. unify_core k s a b = Some (Inr True, t) \<and>
              copy_with_comp_arcs t a = (cres, s') \<and> cres \<noteq> Inl UnificationFailure \<and>
              res = (case cres of Inl e \<Rightarrow> Inl e | Inr r \<Rightarrow> Inr (Some r)))"
proof (cases "unify_core k s a b")
  case None
  then show ?thesis using u by (simp add: unify_def)
next
  case (Some p)
  obtain cr t where p: "p = (cr, t)" by (cases p)
  show ?thesis
  proof (cases cr)
    case (Inl e)
    then show ?thesis using u Some p by (auto simp: unify_def split: if_splits)
  next
    case (Inr ok)
    have ok: "ok" using unify_core_never_False[of k s a b t] Some p Inr by (cases ok) auto
    obtain cres t' where c: "copy_with_comp_arcs t a = (cres, t')"
      by (cases "copy_with_comp_arcs t a")
    have nuf: "cres \<noteq> Inl UnificationFailure" using copy_prefix[OF c] by simp
    show ?thesis using u Some p Inr ok c nuf
      by (cases cres) (auto simp: unify_def split: if_splits)
  qed
qed

lemma clash_same_inputs:
  assumes si: "same_inputs s t"
    and cl: "\<exists>i j. i < length (heap t) \<and> j < length (heap t) \<and>
               is_leaf_node (heap t ! i) \<and> is_leaf_node (heap t ! j) \<and>
               name (heap t ! i) \<noteq> name (heap t ! j)"
  shows "\<exists>i j. i < length (heap s) \<and> j < length (heap s) \<and>
               is_leaf_node (heap s ! i) \<and> is_leaf_node (heap s ! j) \<and>
               name (heap s ! i) \<noteq> name (heap s ! j)"
proof -
  from cl obtain i j where ij: "i < length (heap t)" "j < length (heap t)"
    "is_leaf_node (heap t ! i)" "is_leaf_node (heap t ! j)"
    "name (heap t ! i) \<noteq> name (heap t ! j)" by blast
  have l: "length (heap t) = length (heap s)" using si by (rule same_inputs_length)
  have i: "i < length (heap s)" and j: "j < length (heap s)" using ij l by simp_all
  from same_inputs_nth[OF si i] same_inputs_nth[OF si j] ij
  have "is_leaf_node (heap s ! i) \<and> is_leaf_node (heap s ! j) \<and>
        name (heap s ! i) \<noteq> name (heap s ! j)"
    by (simp add: is_leaf_node_def)
  then show ?thesis using i j by blast
qed

lemma for_shared_clash:
  assumes si: "\<And>s a b res s'. rec s a b = Some (res, s') \<Longrightarrow> same_inputs s s'"
    and cl: "\<And>s a b s'. rec s a b = Some (Inl UnificationFailure, s') \<Longrightarrow>
        \<exists>i j. i < length (heap s) \<and> j < length (heap s) \<and>
               is_leaf_node (heap s ! i) \<and> is_leaf_node (heap s ! j) \<and>
               name (heap s ! i) \<noteq> name (heap s ! j)"
  shows "for_shared rec s d arcs = Some (Inl UnificationFailure, s') \<Longrightarrow>
        \<exists>i j. i < length (heap s) \<and> j < length (heap s) \<and>
               is_leaf_node (heap s ! i) \<and> is_leaf_node (heap s ! j) \<and>
               name (heap s ! i) \<noteq> name (heap s ! j)"
proof (induction arcs arbitrary: s)
  case Nil
  then show ?case by simp
next
  case (Cons arc rest)
  show ?case
  proof (cases "find_arc (label arc) (arc_list (heap s ! d))")
    case None
    then show ?thesis using Cons by simp
  next
    case (Some arc1)
    note fa = Some
    show ?thesis
    proof (cases "rec s (val arc1) (val arc)")
      case None
      then show ?thesis using Cons.prems fa by simp
    next
      case (Some p)
      obtain r1 s1 where p: "p = (r1, s1)" by (cases p)
      have a: "same_inputs s s1" using si Some p by blast
      show ?thesis
      proof (cases r1)
        case (Inl e)
        then have "e = UnificationFailure" using Cons.prems fa Some p by simp
        then show ?thesis using cl Some p Inl by blast
      next
        case (Inr b)
        then have "for_shared rec s1 d rest = Some (Inl UnificationFailure, s')"
          using Cons.prems fa Some p by simp
        from Cons.IH[OF this] show ?thesis using a by (rule clash_same_inputs[rotated])
      qed
    qed
  qed
qed

lemma unify_core_clash:
  "unify_core k s n1 n2 = Some (Inl UnificationFailure, s') \<Longrightarrow>
     \<exists>i j. i < length (heap s) \<and> j < length (heap s) \<and>
            is_leaf_node (heap s ! i) \<and> is_leaf_node (heap s ! j) \<and>
            name (heap s ! i) \<noteq> name (heap s ! j)"
proof (induction k arbitrary: s n1 n2 s')
  case 0
  then show ?case by simp
next
  case (Suc k)
  show ?case
  proof (cases "dereference s n1")
    case (Inl e)
    then have "e = UnificationFailure" using Suc.prems by simp
    then show ?thesis using dereference_errors[OF Inl] by simp
  next
    case (Inr p1)
    obtain d1 s1 where p1: "p1 = (d1, s1)" by (cases p1)
    note D1 = Inr[unfolded p1]
    show ?thesis
    proof (cases "dereference s1 n2")
      case (Inl e)
      then have "e = UnificationFailure" using Suc.prems D1 by simp
      then show ?thesis using dereference_errors[OF Inl] by simp
    next
      case (Inr p2)
      obtain d2 s2 where p2: "p2 = (d2, s2)" by (cases p2)
      note D2 = Inr[unfolded p2]
      note t = dereference_twice[OF D1 D2]
      have si: "same_inputs s s2"
        using same_inputs_dereference[OF D1] same_inputs_dereference[OF D2]
        by (rule same_inputs_trans)
      have ne: "d1 \<noteq> d2" using Suc.prems D1 D2 by auto
      show ?thesis
      proof (cases "is_leaf_node (heap s2 ! d1) \<or> is_leaf_node (heap s2 ! d2)")
        case True
        then have "is_leaf_node (heap s2 ! d1) \<and> is_leaf_node (heap s2 ! d2) \<and>
                   name (heap s2 ! d1) \<noteq> name (heap s2 ! d2)"
          using Suc.prems D1 D2 ne by (auto split: if_splits)
        then show ?thesis using t by auto
      next
        case False
        define sh where
          "sh = intersect_arcs (arc_list (heap s2 ! d1)) (arc_list (heap s2 ! d2))"
        have "\<exists>t. for_shared (unify_core k) s2 d1 sh = Some (Inl UnificationFailure, t)"
          using Suc.prems D1 D2 ne False
          by (auto simp: sh_def Let_def split: if_splits option.splits sum.splits prod.splits)
        then obtain t where f: "for_shared (unify_core k) s2 d1 sh = Some (Inl UnificationFailure, t)"
          by blast
        have "\<exists>i j. i < length (heap s2) \<and> j < length (heap s2) \<and>
               is_leaf_node (heap s2 ! i) \<and> is_leaf_node (heap s2 ! j) \<and>
               name (heap s2 ! i) \<noteq> name (heap s2 ! j)"
        proof (rule for_shared_clash[of "unify_core k", OF _ _ f])
          show "\<And>s a b res s'. unify_core k s a b = Some (res, s') \<Longrightarrow> same_inputs s s'"
            by (rule unify_core_same_inputs)
        next
          show "\<And>s a b s'. unify_core k s a b = Some (Inl UnificationFailure, s') \<Longrightarrow>
            \<exists>i j. i < length (heap s) \<and> j < length (heap s) \<and>
             is_leaf_node (heap s ! i) \<and> is_leaf_node (heap s ! j) \<and>
             name (heap s ! i) \<noteq> name (heap s ! j)"
            by (rule Suc.IH)
        qed
        with si show ?thesis by (rule clash_same_inputs)
      qed
    qed
  qed
qed

text \<open>
  C3, as the source has it.
  \<^item> Whatever \<open>unify\<close> returns, it is never the exception \<open>UnificationFailure\<close>; \<open>unify\<close>
    returns \<open>None\<close> exactly when \<open>unify_core\<close> raised \<open>UnificationFailure\<close>, and then the
    heap holds two leaves with different names.
  \<^item> An exception of \<open>unify_core\<close> other than \<open>UnificationFailure\<close>, such as the
    \<open>ValueError\<close> or the \<open>RecursionError\<close> of \<open>dereference\<close>, leaves \<open>unify\<close> unchanged.
  \<^item> When the operands dereference to two different leaves, \<open>unify_core\<close> succeeds if their
    names are equal and raises \<open>UnificationFailure\<close> otherwise.
  \<^item> When the operands dereference to two different nodes that are not leaves and, in the
    loop over the shared arcs, the arcs before \<open>arc\<close> have been unified and the recursive
    call for \<open>arc\<close> raises an exception, \<open>unify_core\<close> raises that exception, with the
    state of that moment. So a clash of two leaf names, at whatever depth, comes up as
    \<open>UnificationFailure\<close> from every enclosing call, and \<open>unify\<close> returns \<open>None\<close>.
\<close>

theorem unify_failure_boundary:
  "(\<forall>res s'. unify k s n1 n2 = Some (res, s') \<longrightarrow>
      res \<noteq> Inl UnificationFailure \<and>
      ((res = Inr None) = (unify_core k s n1 n2 = Some (Inl UnificationFailure, s'))) \<and>
      (res = Inr None \<longrightarrow>
         (\<exists>i j. i < length (heap s) \<and> j < length (heap s) \<and>
                is_leaf_node (heap s ! i) \<and> is_leaf_node (heap s ! j) \<and>
                name (heap s ! i) \<noteq> name (heap s ! j)))) \<and>
   (\<forall>e t. unify_core k s n1 n2 = Some (Inl e, t) \<longrightarrow>
      unify k s n1 n2 = Some (if e = UnificationFailure then Inr None else Inl e, t)) \<and>
   (\<forall>j d1 s1 d2 s2.
      dereference s n1 = Inr (d1, s1) \<longrightarrow> dereference s1 n2 = Inr (d2, s2) \<longrightarrow> d1 \<noteq> d2 \<longrightarrow>
      is_leaf_node (heap s ! d1) \<longrightarrow> is_leaf_node (heap s ! d2) \<longrightarrow>
        unify_core (Suc j) s n1 n2 =
          (if name (heap s ! d1) = name (heap s ! d2) then Some (Inr True, s2)
           else Some (Inl UnificationFailure, s2))) \<and>
   (\<forall>j d1 s1 d2 s2 pre arc post t arc1 e t'.
      dereference s n1 = Inr (d1, s1) \<longrightarrow> dereference s1 n2 = Inr (d2, s2) \<longrightarrow> d1 \<noteq> d2 \<longrightarrow>
      \<not> is_leaf_node (heap s ! d1) \<longrightarrow> \<not> is_leaf_node (heap s ! d2) \<longrightarrow>
      intersect_arcs (arc_list (heap s ! d1)) (arc_list (heap s ! d2)) = pre @ arc # post \<longrightarrow>
      for_shared (unify_core j) s2 d1 pre = Some (Inr (), t) \<longrightarrow>
      find_arc (label arc) (arc_list (heap t ! d1)) = Some arc1 \<longrightarrow>
      unify_core j t (val arc1) (val arc) = Some (Inl e, t') \<longrightarrow>
        unify_core (Suc j) s n1 n2 = Some (Inl e, t'))"
proof (intro conjI allI impI)
  fix res s' assume u: "unify k s n1 n2 = Some (res, s')"
  note c = unify_cases[OF u]
  have cp: "res \<noteq> Inl UnificationFailure \<and> res \<noteq> Inr None"
    if "cres \<noteq> Inl UnificationFailure"
      and "res = (case cres of Inl e \<Rightarrow> Inl e | Inr r \<Rightarrow> Inr (Some r))"
    for cres :: "error + addr"
    using that by (cases cres) auto
  show a: "res \<noteq> Inl UnificationFailure"
    using c cp by (auto split: if_splits)
  show b: "(res = Inr None) = (unify_core k s n1 n2 = Some (Inl UnificationFailure, s'))"
    using c cp by (auto split: if_splits)
  assume "res = Inr None"
  then show "\<exists>i j. i < length (heap s) \<and> j < length (heap s) \<and>
                is_leaf_node (heap s ! i) \<and> is_leaf_node (heap s ! j) \<and>
                name (heap s ! i) \<noteq> name (heap s ! j)"
    using b unify_core_clash by blast
next
  fix e t assume "unify_core k s n1 n2 = Some (Inl e, t)"
  then show "unify k s n1 n2 = Some (if e = UnificationFailure then Inr None else Inl e, t)"
    by (simp add: unify_def)
next
  fix j d1 s1 d2 s2
  assume D1: "dereference s n1 = Inr (d1, s1)" and D2: "dereference s1 n2 = Inr (d2, s2)"
    and ne: "d1 \<noteq> d2" and l1: "is_leaf_node (heap s ! d1)" and l2: "is_leaf_node (heap s ! d2)"
  note t = dereference_twice[OF D1 D2]
  have e: "heap s2 ! d1 = heap s ! d1" "heap s2 ! d2 = heap s ! d2" using t by simp_all
  show "unify_core (Suc j) s n1 n2 =
          (if name (heap s ! d1) = name (heap s ! d2) then Some (Inr True, s2)
           else Some (Inl UnificationFailure, s2))"
    using D1 D2 ne l1 l2 e by simp
next
  fix j d1 s1 d2 s2 pre arc post t arc1 e t'
  assume D1: "dereference s n1 = Inr (d1, s1)" and D2: "dereference s1 n2 = Inr (d2, s2)"
    and ne: "d1 \<noteq> d2"
    and nl1: "\<not> is_leaf_node (heap s ! d1)" and nl2: "\<not> is_leaf_node (heap s ! d2)"
    and sh: "intersect_arcs (arc_list (heap s ! d1)) (arc_list (heap s ! d2)) = pre @ arc # post"
    and pre: "for_shared (unify_core j) s2 d1 pre = Some (Inr (), t)"
    and fa: "find_arc (label arc) (arc_list (heap t ! d1)) = Some arc1"
    and call: "unify_core j t (val arc1) (val arc) = Some (Inl e, t')"
  have "for_shared (unify_core j) s2 d1 (pre @ arc # post) = Some (Inl e, t')"
    using pre fa call by (simp add: for_shared_append)
  then show "unify_core (Suc j) s n1 n2 = Some (Inl e, t')"
    unfolding unify_core_nonleaf[OF D1 D2 ne nl1 nl2] sh by simp
qed

text \<open>
  The theorem at \<open>ex_deep_clash\<close>, for \<open>{f: {h: A}}\<close> at 4 and \<open>{f: {h: B}}\<close> at 5, where
  the clash is two levels down, between the leaves 0 and 1: the call on the leaves raises
  \<open>UnificationFailure\<close>, the call on the nodes 2 and 3 raises it, the call on the nodes 4
  and 5 raises it, and \<open>unify\<close> returns \<open>None\<close>.
\<close>

theorem unify_failure_boundary_witness:
  "unify 3 ex_deep_clash 4 5 = Some (Inr None, ex_deep_clash) \<and>
   unify_core 3 ex_deep_clash 4 5 = Some (Inl UnificationFailure, ex_deep_clash) \<and>
   (\<exists>i j. i < length (heap ex_deep_clash) \<and> j < length (heap ex_deep_clash) \<and>
          is_leaf_node (heap ex_deep_clash ! i) \<and> is_leaf_node (heap ex_deep_clash ! j) \<and>
          name (heap ex_deep_clash ! i) \<noteq> name (heap ex_deep_clash ! j)) \<and>
   dereference ex_deep_clash 4 = Inr (4, ex_deep_clash) \<and>
   dereference ex_deep_clash 5 = Inr (5, ex_deep_clash) \<and>
   \<not> is_leaf_node (heap ex_deep_clash ! 4) \<and> \<not> is_leaf_node (heap ex_deep_clash ! 5) \<and>
   intersect_arcs (arc_list (heap ex_deep_clash ! 4)) (arc_list (heap ex_deep_clash ! 5)) =
     [] @ \<lparr>label = ''f'', val = 3\<rparr> # [] \<and>
   find_arc (label \<lparr>label = ''f'', val = 3\<rparr>) (arc_list (heap ex_deep_clash ! 4)) =
     Some \<lparr>label = ''f'', val = 2\<rparr> \<and>
   unify_core 2 ex_deep_clash 2 3 = Some (Inl UnificationFailure, ex_deep_clash) \<and>
   dereference ex_deep_clash 2 = Inr (2, ex_deep_clash) \<and>
   dereference ex_deep_clash 3 = Inr (3, ex_deep_clash) \<and>
   \<not> is_leaf_node (heap ex_deep_clash ! 2) \<and> \<not> is_leaf_node (heap ex_deep_clash ! 3) \<and>
   intersect_arcs (arc_list (heap ex_deep_clash ! 2)) (arc_list (heap ex_deep_clash ! 3)) =
     [] @ \<lparr>label = ''h'', val = 1\<rparr> # [] \<and>
   for_shared (unify_core 1) ex_deep_clash 2 [] = Some (Inr (), ex_deep_clash) \<and>
   find_arc (label \<lparr>label = ''h'', val = 1\<rparr>) (arc_list (heap ex_deep_clash ! 2)) =
     Some \<lparr>label = ''h'', val = 0\<rparr> \<and>
   unify_core 1 ex_deep_clash 0 1 = Some (Inl UnificationFailure, ex_deep_clash) \<and>
   dereference ex_deep_clash 0 = Inr (0, ex_deep_clash) \<and>
   dereference ex_deep_clash 1 = Inr (1, ex_deep_clash) \<and>
   is_leaf_node (heap ex_deep_clash ! 0) \<and> is_leaf_node (heap ex_deep_clash ! 1) \<and>
   name (heap ex_deep_clash ! 0) \<noteq> name (heap ex_deep_clash ! 1)"
proof -
  let ?E = ex_deep_clash
  have d0: "dereference ?E 0 = Inr (0, ?E)" and d1: "dereference ?E 1 = Inr (1, ?E)"
    and d2: "dereference ?E 2 = Inr (2, ?E)" and d3: "dereference ?E 3 = Inr (3, ?E)"
    and d4: "dereference ?E 4 = Inr (4, ?E)" and d5: "dereference ?E 5 = Inr (5, ?E)"
    by code_simp+
  have n01: "(0::nat) \<noteq> 1" and n23: "(2::nat) \<noteq> 3" and n45: "(4::nat) \<noteq> 5" by simp_all
  have l0: "is_leaf_node (heap ?E ! 0)" and l1: "is_leaf_node (heap ?E ! 1)"
    and nl2: "\<not> is_leaf_node (heap ?E ! 2)" and nl3: "\<not> is_leaf_node (heap ?E ! 3)"
    and nl4: "\<not> is_leaf_node (heap ?E ! 4)" and nl5: "\<not> is_leaf_node (heap ?E ! 5)"
    by code_simp+
  have nm: "name (heap ?E ! 0) \<noteq> name (heap ?E ! 1)"
    by (simp add: ex_deep_clash_def DGNode_init_def)
  have sh23: "intersect_arcs (arc_list (heap ?E ! 2)) (arc_list (heap ?E ! 3)) =
     [] @ \<lparr>label = ''h'', val = 1\<rparr> # []"
    by (simp add: ex_deep_clash_def DGNode_init_def intersect_arcs_def)
  have sh45: "intersect_arcs (arc_list (heap ?E ! 4)) (arc_list (heap ?E ! 5)) =
     [] @ \<lparr>label = ''f'', val = 3\<rparr> # []"
    by (simp add: ex_deep_clash_def DGNode_init_def intersect_arcs_def)
  have pre1: "for_shared (unify_core 1) ?E 2 [] = Some (Inr (), ?E)" by simp
  have pre2: "for_shared (unify_core 2) ?E 4 [] = Some (Inr (), ?E)" by simp
  have fa23: "find_arc (label \<lparr>label = ''h'', val = 1\<rparr>) (arc_list (heap ?E ! 2)) =
     Some \<lparr>label = ''h'', val = 0\<rparr>"
    by (simp add: ex_deep_clash_def DGNode_init_def)
  have fa45: "find_arc (label \<lparr>label = ''f'', val = 3\<rparr>) (arc_list (heap ?E ! 4)) =
     Some \<lparr>label = ''f'', val = 2\<rparr>"
    by (simp add: ex_deep_clash_def DGNode_init_def)
  text \<open>the leaves 0 and 1: the third part of the theorem\<close>
  have "unify_core (Suc 0) ?E 0 1 = Some (Inl UnificationFailure, ?E)"
    using unify_failure_boundary[of "Suc 0" ?E 0 1, THEN conjunct2, THEN conjunct2,
        THEN conjunct1, rule_format, OF d0 d1 n01 l0 l1, of 0] nm
    by (simp del: unify_core.simps)
  then have c01: "unify_core 1 ?E 0 1 = Some (Inl UnificationFailure, ?E)"
    by (simp only: One_nat_def)
  then have call1: "unify_core 1 ?E (val \<lparr>label = ''h'', val = 0\<rparr>)
      (val \<lparr>label = ''h'', val = 1\<rparr>) = Some (Inl UnificationFailure, ?E)"
    by (simp del: unify_core.simps)
  text \<open>one level up, the nodes 2 and 3: the fourth part\<close>
  have "unify_core (Suc 1) ?E 2 3 = Some (Inl UnificationFailure, ?E)"
    by (rule unify_failure_boundary[of 2 ?E 2 3, THEN conjunct2, THEN conjunct2,
        THEN conjunct2, rule_format, OF d2 d3 n23 nl2 nl3 sh23 pre1 fa23 call1])
  then have c23: "unify_core 2 ?E 2 3 = Some (Inl UnificationFailure, ?E)"
    by (simp only: Suc_1)
  then have call2: "unify_core 2 ?E (val \<lparr>label = ''f'', val = 2\<rparr>)
      (val \<lparr>label = ''f'', val = 3\<rparr>) = Some (Inl UnificationFailure, ?E)"
    by (simp del: unify_core.simps)
  text \<open>two levels up, the nodes 4 and 5: the fourth part again\<close>
  have "unify_core (Suc 2) ?E 4 5 = Some (Inl UnificationFailure, ?E)"
    by (rule unify_failure_boundary[of 3 ?E 4 5, THEN conjunct2, THEN conjunct2,
        THEN conjunct2, rule_format, OF d4 d5 n45 nl4 nl5 sh45 pre2 fa45 call2])
  then have c45: "unify_core 3 ?E 4 5 = Some (Inl UnificationFailure, ?E)"
    by (simp only: eval_nat_numeral)
  text \<open>the top level: the second and the first part\<close>
  have top: "unify 3 ?E 4 5 = Some (Inr None, ?E)"
    using unify_failure_boundary[of 3 ?E 4 5, THEN conjunct2, THEN conjunct1,
        rule_format, OF c45]
    by simp
  have clash: "\<exists>i j. i < length (heap ?E) \<and> j < length (heap ?E) \<and>
          is_leaf_node (heap ?E ! i) \<and> is_leaf_node (heap ?E ! j) \<and>
          name (heap ?E ! i) \<noteq> name (heap ?E ! j)"
    using unify_failure_boundary[of 3 ?E 4 5, THEN conjunct1, rule_format, OF top]
    by blast
  show ?thesis
    using top c45 clash d4 d5 nl4 nl5 sh45 fa45 c23 d2 d3 nl2 nl3 sh23 pre1 fa23 c01
      d0 d1 l0 l1 nm
    by blast
qed

text \<open>
  C3 as the claim words it fails. On the leaf of \<open>ex_cycle\<close>, whose forward is the leaf
  itself, \<open>dereference\<close> finds the leaf on its path and raises \<open>ValueError\<close>; on the two
  nodes of \<open>ex_cycle2\<close>, which forward to each other and look alike, the comparison of the
  two never ends and \<open>dereference\<close> raises \<open>RecursionError\<close>. \<open>unify\<close> lets both through.
\<close>

theorem unify_exception_escapes_counterexample:
  "unify 1 ex_cycle 0 0 = Some (Inl ValueError, ex_cycle) \<and>
   unify 1 ex_cycle2 0 1 = Some (Inl RecursionError, ex_cycle2)"
  by code_simp

lemma ex_shared_after_reached:
  "unify_core 2 ex_shared 3 4 = Some (Inr True, ex_shared_after)"
  by code_simp

text \<open>
  C2, as the source has it, with structure sharing switched off. \<open>copy_with_comp_arcs\<close>
  reads the node it is given, without dereferencing it, and allocates one new node: the
  nodes already in the heap are unchanged, and the new node has the type and the name of
  the given node, no forward, no copy, generation 0, an empty \<open>comp_arc_list\<close>, and as
  \<open>arc_list\<close> the arcs of the given node followed by its \<open>comp_arc_list\<close>. These are the
  same arcs, pointing to the same child nodes: no child is copied.
\<close>

theorem copy_with_comp_arcs_shallow:
  assumes nsh: "\<not> structure_sharing s" and n: "node < length (heap s)"
  shows "\<exists>s'. copy_with_comp_arcs s node = (Inr (length (heap s)), s') \<and>
     length (heap s') = Suc (length (heap s)) \<and> take (length (heap s)) (heap s') = heap s \<and>
     node_type (heap s' ! length (heap s)) = node_type (heap s ! node) \<and>
     name (heap s' ! length (heap s)) = name (heap s ! node) \<and>
     arc_list (heap s' ! length (heap s)) =
       arc_list (heap s ! node) @ comp_arc_list (heap s ! node) \<and>
     comp_arc_list (heap s' ! length (heap s)) = [] \<and>
     forward (heap s' ! length (heap s)) = None \<and>
     copy (heap s' ! length (heap s)) = None \<and>
     generation (heap s' ! length (heap s)) = 0"
  using copy_no_sharing[OF nsh n] by simp

text \<open>
  The theorem at node 3 of \<open>ex_shared_after\<close>, which forwards to node 4: the copy is made
  of node 3 itself.
\<close>

theorem copy_with_comp_arcs_shallow_witness:
  "\<not> structure_sharing ex_shared_after \<and> 3 < length (heap ex_shared_after) \<and>
   forward (heap ex_shared_after ! 3) = Some 4 \<and>
   (\<exists>s'. copy_with_comp_arcs ex_shared_after 3 = (Inr (length (heap ex_shared_after)), s') \<and>
     length (heap s') = Suc (length (heap ex_shared_after)) \<and>
     take (length (heap ex_shared_after)) (heap s') = heap ex_shared_after \<and>
     node_type (heap s' ! length (heap ex_shared_after)) = node_type (heap ex_shared_after ! 3) \<and>
     name (heap s' ! length (heap ex_shared_after)) = name (heap ex_shared_after ! 3) \<and>
     arc_list (heap s' ! length (heap ex_shared_after)) =
       arc_list (heap ex_shared_after ! 3) @ comp_arc_list (heap ex_shared_after ! 3) \<and>
     comp_arc_list (heap s' ! length (heap ex_shared_after)) = [] \<and>
     forward (heap s' ! length (heap ex_shared_after)) = None \<and>
     copy (heap s' ! length (heap ex_shared_after)) = None \<and>
     generation (heap s' ! length (heap ex_shared_after)) = 0) \<and>
   arc_list (heap ex_shared_after ! 3) @ comp_arc_list (heap ex_shared_after ! 3) =
     [\<lparr>label = ''f'', val = 0\<rparr>, \<lparr>label = ''g'', val = 2\<rparr>]"
proof -
  have h1: "\<not> structure_sharing ex_shared_after" by (simp add: ex_shared_after_def)
  have h2: "3 < length (heap ex_shared_after)" by (simp add: ex_shared_after_def)
  have h3: "forward (heap ex_shared_after ! 3) = Some 4"
    by (simp add: ex_shared_after_def DGNode_init_def)
  have h4: "arc_list (heap ex_shared_after ! 3) @ comp_arc_list (heap ex_shared_after ! 3) =
     [\<lparr>label = ''f'', val = 0\<rparr>, \<lparr>label = ''g'', val = 2\<rparr>]"
    by (simp add: ex_shared_after_def DGNode_init_def)
  from copy_with_comp_arcs_shallow[OF h1 h2]
  show ?thesis using h1 h2 h3 h4 by blast
qed

text \<open>
  C2 as the claim words it fails on \<open>ex_share\<close>. The node that \<open>unify\<close> of node 1 with itself
  returns has the arc \<open>f\<close> of node 1, pointing to the same leaf 0. Unifying the returned node
  with node 3 then gives that leaf, a node of the input graph, a forward to node 2.
\<close>

theorem copy_shares_children_counterexample:
  "(case unify 1 ex_share 1 1 of
      Some (Inr (Some r), s1) \<Rightarrow>
        arc_list (heap s1 ! 1) = [\<lparr>label = ''f'', val = 0\<rparr>] \<and>
        arc_list (heap s1 ! r) = [\<lparr>label = ''f'', val = 0\<rparr>] \<and>
        forward (heap s1 ! 0) = None \<and>
        (case unify 2 s1 r 3 of
           Some (Inr (Some r'), s2) \<Rightarrow> forward (heap s2 ! 0) = Some 2
         | _ \<Rightarrow> False)
    | _ \<Rightarrow> False)"
  by code_simp

lemma unify_core_Inr_in_heap:
  "unify_core k s a b = Some (Inr ok, t) \<Longrightarrow> a < length (heap s)"
proof (cases k)
  case 0
  then show "unify_core k s a b = Some (Inr ok, t) \<Longrightarrow> ?thesis" by simp
next
  case (Suc j)
  assume u: "unify_core k s a b = Some (Inr ok, t)"
  show ?thesis
  proof (cases "dereference s a")
    case (Inl e)
    then show ?thesis using u Suc by simp
  next
    case (Inr p)
    then show ?thesis using dereference_in_heap[of s a "fst p" "snd p"] by simp
  qed
qed

lemma unify_success:
  assumes nsh: "\<not> structure_sharing s" and u: "unify k s a b = Some (Inr (Some r), s')"
  shows "\<exists>t. unify_core k s a b = Some (Inr True, t) \<and> same_inputs s t \<and>
             a < length (heap s) \<and> r = length (heap s) \<and>
             s' = t\<lparr>heap := heap t @
                 [\<lparr>node_type = node_type (heap t ! a),
                   arc_list = arc_list (heap t ! a) @ comp_arc_list (heap t ! a),
                   comp_arc_list = [], forward = None, copy = None, generation = 0,
                   mark = None, name = name (heap t ! a)\<rparr>]\<rparr>"
proof -
  from unify_cases[OF u] obtain t cres where
    core: "unify_core k s a b = Some (Inr True, t)"
    and c: "copy_with_comp_arcs t a = (cres, s')"
    and r: "Inr (Some r) = (case cres of Inl e \<Rightarrow> Inl e | Inr r \<Rightarrow> Inr (Some r))"
    by (auto split: if_splits)
  have si: "same_inputs s t" using core by (rule unify_core_same_inputs)
  have a: "a < length (heap s)" using core by (rule unify_core_Inr_in_heap)
  have l: "length (heap t) = length (heap s)" using si by (rule same_inputs_length)
  have nt: "\<not> structure_sharing t" using si nsh by (simp add: same_inputs_def)
  have at: "a < length (heap t)" using a l by simp
  note cp = copy_no_sharing[OF nt at]
  have "cres = Inr (length (heap s))" using cp c l by simp
  then have "r = length (heap s)" using r by simp
  moreover have "s' = t\<lparr>heap := heap t @
                 [\<lparr>node_type = node_type (heap t ! a),
                   arc_list = arc_list (heap t ! a) @ comp_arc_list (heap t ! a),
                   comp_arc_list = [], forward = None, copy = None, generation = 0,
                   mark = None, name = name (heap t ! a)\<rparr>]\<rparr>"
    using cp c by simp
  ultimately show ?thesis using core si a by blast
qed

text \<open>
  C7, as the source has it, with structure sharing switched off. The node returned by a
  successful \<open>unify\<close> is allocated by that call: its reference is the size of the heap before
  the call, so it is no node that existed before, and in particular not the node returned by
  an earlier call. It is a copy of the first operand alone: its arcs are the arcs and the
  complement arcs of the first operand, pointing to the child nodes already in the heap.
\<close>

theorem unify_outputs_fresh_roots:
  assumes nsh: "\<not> structure_sharing s"
    and u1: "unify k s a b = Some (Inr (Some r1), s1)"
    and u2: "unify k' s1 c d = Some (Inr (Some r2), s2)"
  shows "r1 = length (heap s) \<and> r2 = length (heap s1) \<and> r1 < r2 \<and>
         length (heap s2) = Suc r2 \<and> c < length (heap s1) \<and>
         arc_list (heap s2 ! r2) = arc_list (heap s2 ! c) @ comp_arc_list (heap s2 ! c)"
proof -
  from unify_success[OF nsh u1] obtain t where
    t: "same_inputs s t" "r1 = length (heap s)"
       "s1 = t\<lparr>heap := heap t @
                 [\<lparr>node_type = node_type (heap t ! a),
                   arc_list = arc_list (heap t ! a) @ comp_arc_list (heap t ! a),
                   comp_arc_list = [], forward = None, copy = None, generation = 0,
                   mark = None, name = name (heap t ! a)\<rparr>]\<rparr>" by blast
  have nsh1: "\<not> structure_sharing s1" using t nsh by (simp add: same_inputs_def)
  have l1: "length (heap s1) = Suc (length (heap s))"
    using t same_inputs_length[OF t(1)] by simp
  from unify_success[OF nsh1 u2] obtain t' where
    t': "same_inputs s1 t'" "c < length (heap s1)" "r2 = length (heap s1)"
       "s2 = t'\<lparr>heap := heap t' @
                 [\<lparr>node_type = node_type (heap t' ! c),
                   arc_list = arc_list (heap t' ! c) @ comp_arc_list (heap t' ! c),
                   comp_arc_list = [], forward = None, copy = None, generation = 0,
                   mark = None, name = name (heap t' ! c)\<rparr>]\<rparr>" by blast
  have l2: "length (heap t') = length (heap s1)" using t'(1) by (rule same_inputs_length)
  have c: "c < length (heap t')" using t'(2) l2 by simp
  have "arc_list (heap s2 ! r2) = arc_list (heap s2 ! c) @ comp_arc_list (heap s2 ! c)"
    using c l2 by (simp add: t'(3,4) nth_append)
  moreover have "length (heap s2) = Suc r2" using l2 by (simp add: t'(3,4))
  ultimately show ?thesis using t(2) t'(2,3) l1 by simp
qed

text \<open>
  The theorem at \<open>ex_share\<close>, unifying node 1 with itself twice.
\<close>

theorem unify_outputs_fresh_roots_witness:
  "\<not> structure_sharing ex_share \<and>
   unify 1 ex_share 1 1 = Some (Inr (Some 4), ex_share_once) \<and>
   unify 1 ex_share_once 1 1 = Some (Inr (Some 5), ex_share_twice) \<and>
   4 = length (heap ex_share) \<and> 5 = length (heap ex_share_once) \<and> (4::nat) < 5 \<and>
   length (heap ex_share_twice) = Suc 5 \<and> 1 < length (heap ex_share_once) \<and>
   arc_list (heap ex_share_twice ! 5) =
     arc_list (heap ex_share_twice ! 1) @ comp_arc_list (heap ex_share_twice ! 1)"
proof -
  have h: "\<not> structure_sharing ex_share" by (simp add: ex_share_def)
  have u1: "unify 1 ex_share 1 1 = Some (Inr (Some 4), ex_share_once)" by code_simp
  have u2: "unify 1 ex_share_once 1 1 = Some (Inr (Some 5), ex_share_twice)" by code_simp
  from unify_outputs_fresh_roots[OF h u1 u2]
  show ?thesis using h u1 u2 by blast
qed

text \<open>
  C7 as the claim words it fails on \<open>ex_share\<close>: the nodes 4 and 5 returned by two calls of
  \<open>unify\<close> both point to the leaf 0, and unifying node 4 with node 3 gives that leaf a
  forward, which changes the graph under node 5 as well.
\<close>

theorem outputs_share_children_counterexample:
  "unify 1 ex_share 1 1 = Some (Inr (Some 4), ex_share_once) \<and>
   unify 1 ex_share_once 1 1 = Some (Inr (Some 5), ex_share_twice) \<and>
   map val (arc_list (heap ex_share_twice ! 4)) = [0] \<and>
   map val (arc_list (heap ex_share_twice ! 5)) = [0] \<and>
   forward (heap ex_share_twice ! 0) = None \<and>
   (case unify 2 ex_share_twice 4 3 of
      Some (Inr (Some r), s3) \<Rightarrow>
        map val (arc_list (heap s3 ! 5)) = [0] \<and> forward (heap s3 ! 0) = Some 2
    | _ \<Rightarrow> False)"
  by code_simp

section \<open>What a call leaves on its inputs\<close>

lemma unify_static:
  assumes u: "unify k s a b = Some (res, s')" and i: "i < length (heap s)"
  shows "node_type (heap s' ! i) = node_type (heap s ! i) \<and>
         name (heap s' ! i) = name (heap s ! i) \<and>
         arc_list (heap s' ! i) = arc_list (heap s ! i) \<and>
         length (heap s) \<le> length (heap s') \<and> structure_sharing s' = structure_sharing s"
proof -
  from unify_cases[OF u] show ?thesis
  proof (elim disjE exE conjE)
    fix e assume "unify_core k s a b = Some (Inl e, s')"
    then have si: "same_inputs s s'" by (rule unify_core_same_inputs)
    show ?thesis using same_inputs_nth[OF si i] same_inputs_length[OF si] si
      by (simp add: same_inputs_def)
  next
    fix t cres assume core: "unify_core k s a b = Some (Inr True, t)"
      and c: "copy_with_comp_arcs t a = (cres, s')"
    have si: "same_inputs s t" using core by (rule unify_core_same_inputs)
    have l: "length (heap t) = length (heap s)" using si by (rule same_inputs_length)
    note cp = copy_prefix[OF c]
    have "take (length (heap t)) (heap s') ! i = heap t ! i" using cp by simp
    then have "heap s' ! i = heap t ! i" using i l by simp
    then show ?thesis using same_inputs_nth[OF si i] cp l si by (simp add: same_inputs_def)
  qed
qed

lemma unify_self:
  assumes nsh: "\<not> structure_sharing s" and dx: "dereference s x = Inr (d, s1)"
  shows "unify (Suc j) s x x =
     Some (Inr (Some (length (heap s))),
           s1\<lparr>heap := heap s1 @
              [\<lparr>node_type = node_type (heap s ! x),
                arc_list = arc_list (heap s ! x) @ comp_arc_list (heap s ! x),
                comp_arc_list = [], forward = None, copy = None, generation = 0,
                mark = None, name = name (heap s ! x)\<rparr>]\<rparr>)"
proof -
  have again: "dereference s1 x = Inr (d, s1)" using dereference_idem[OF dx] by simp
  have core: "unify_core (Suc j) s x x = Some (Inr True, s1)" using dx again by simp
  have x: "x < length (heap s)" using dx by (rule dereference_in_heap)
  note r = dereference_result[OF dx]
  have l: "length (heap s1) = length (heap s)" and nsh1: "\<not> structure_sharing s1"
    using r nsh by simp_all
  have x1: "x < length (heap s1)" using x l by simp
  have si: "same_inputs s s1" using dx by (rule same_inputs_dereference)
  have f: "node_type (heap s1 ! x) = node_type (heap s ! x)"
          "name (heap s1 ! x) = name (heap s ! x)"
          "arc_list (heap s1 ! x) = arc_list (heap s ! x)"
    using same_inputs_nth[OF si x] by simp_all
  have c: "comp_arc_list (heap s1 ! x) = comp_arc_list (heap s ! x)"
    using dereference_nth[OF dx x] by auto
  show ?thesis
    using core copy_no_sharing[OF nsh1 x1] f c l by (simp add: unify_def)
qed

lemma struct_equal_length:
  assumes "struct_equal m h a b"
  shows "length (arc_list (h ! a)) = length (arc_list (h ! b))"
  using assms by (cases m) simp_all

text \<open>
  C1, as the source has it, with structure sharing switched off. Whatever a call
  \<open>unify(x, y)\<close> returns, value or exception, every node that was in the heap keeps its type,
  its name and its \<open>arc_list\<close>. The scratch fields are another matter: no field is read
  through the generation, so what the call wrote stays. If the \<open>dereference\<close> of \<open>x\<close> with
  which a following \<open>unify(x, x)\<close> begins returns (the forward chain of \<open>x\<close> ends and the
  comparisons of \<open>current in path\<close> stay within the recursion limit), that call succeeds
  and returns a new node with the type and name of \<open>x\<close> whose arcs are the \<open>arc_list\<close> of
  \<open>x\<close> followed by the \<open>comp_arc_list\<close> that the earlier call left on \<open>x\<close>, while \<open>x\<close>
  keeps its own \<open>arc_list\<close>. So whenever the earlier call left complement arcs on \<open>x\<close>,
  the new node is not structurally equal to \<open>x\<close>, to whatever depth the two are compared.
\<close>

theorem scratch_fields_persist:
  assumes nsh: "\<not> structure_sharing s" and x: "x < length (heap s)"
    and u: "unify k s x y = Some (res, s')"
    and dx: "dereference s' x = Inr (d, s1)"
  shows "(\<forall>i < length (heap s).
            node_type (heap s' ! i) = node_type (heap s ! i) \<and>
            name (heap s' ! i) = name (heap s ! i) \<and>
            arc_list (heap s' ! i) = arc_list (heap s ! i)) \<and>
         (\<exists>t. unify (Suc j) s' x x = Some (Inr (Some (length (heap s'))), t) \<and>
              node_type (heap t ! length (heap s')) = node_type (heap s ! x) \<and>
              name (heap t ! length (heap s')) = name (heap s ! x) \<and>
              arc_list (heap t ! length (heap s')) =
                arc_list (heap s ! x) @ comp_arc_list (heap s' ! x) \<and>
              arc_list (heap t ! x) = arc_list (heap s ! x) \<and>
              (\<forall>m. comp_arc_list (heap s' ! x) \<noteq> [] \<longrightarrow>
                     \<not> struct_equal m (heap t) (length (heap s')) x))"
proof -
  have st: "\<forall>i < length (heap s).
            node_type (heap s' ! i) = node_type (heap s ! i) \<and>
            name (heap s' ! i) = name (heap s ! i) \<and>
            arc_list (heap s' ! i) = arc_list (heap s ! i)"
    using unify_static[OF u] by blast
  have nsh': "\<not> structure_sharing s'" using unify_static[OF u x] nsh by simp
  have x': "x < length (heap s')" using unify_static[OF u x] x by simp
  have l1: "length (heap s1) = length (heap s')" using dereference_result[OF dx] by simp
  have si: "same_inputs s' s1" using dx by (rule same_inputs_dereference)
  have a1: "arc_list (heap s1 ! x) = arc_list (heap s' ! x)"
    using same_inputs_nth[OF si x'] by simp
  define n where "n = \<lparr>node_type = node_type (heap s' ! x),
                arc_list = arc_list (heap s' ! x) @ comp_arc_list (heap s' ! x),
                comp_arc_list = [], forward = None, copy = None, generation = 0,
                mark = None, name = name (heap s' ! x)\<rparr>"
  define t where "t = s1\<lparr>heap := heap s1 @ [n]\<rparr>"
  have us: "unify (Suc j) s' x x = Some (Inr (Some (length (heap s'))), t)"
    using unify_self[OF nsh' dx, of j] by (simp add: t_def n_def)
  have sx: "node_type (heap s' ! x) = node_type (heap s ! x)"
       "name (heap s' ! x) = name (heap s ! x)"
       "arc_list (heap s' ! x) = arc_list (heap s ! x)"
    using st x by simp_all
  have new: "heap t ! length (heap s') = n"
    unfolding l1[symmetric] by (simp add: t_def)
  have old: "heap t ! x = heap s1 ! x"
    using x' l1 by (simp add: t_def nth_append)
  have ax: "arc_list (heap t ! x) = arc_list (heap s ! x)"
    using old a1 sx by simp
  have an: "arc_list (heap t ! length (heap s')) =
              arc_list (heap s ! x) @ comp_arc_list (heap s' ! x)"
    using new sx by (simp add: n_def)
  have ne: "\<not> struct_equal m (heap t) (length (heap s')) x"
    if "comp_arc_list (heap s' ! x) \<noteq> []" for m
  proof
    assume "struct_equal m (heap t) (length (heap s')) x"
    then have "length (arc_list (heap t ! length (heap s'))) = length (arc_list (heap t ! x))"
      by (rule struct_equal_length)
    then show False using an ax that by simp
  qed
  have "node_type (heap t ! length (heap s')) = node_type (heap s ! x)"
       "name (heap t ! length (heap s')) = name (heap s ! x)"
    using new sx by (simp_all add: n_def)
  then show ?thesis using st us an ax ne by blast
qed

text \<open>
  The theorem at \<open>ex_disjoint\<close>, for \<open>{f: X}\<close> at 2 and \<open>{g: Y}\<close> at 3: the first call leaves
  the arc \<open>g\<close> in the \<open>comp_arc_list\<close> of node 2.
\<close>

theorem scratch_fields_persist_witness:
  "\<not> structure_sharing ex_disjoint \<and> 2 < length (heap ex_disjoint) \<and>
   unify 1 ex_disjoint 2 3 = Some (Inr (Some 4), ex_disjoint_unified) \<and>
   dereference ex_disjoint_unified 2 = Inr (3, ex_disjoint_unified) \<and>
   node_type (heap ex_disjoint_unified ! 2) = node_type (heap ex_disjoint ! 2) \<and>
   name (heap ex_disjoint_unified ! 2) = name (heap ex_disjoint ! 2) \<and>
   arc_list (heap ex_disjoint_unified ! 2) = arc_list (heap ex_disjoint ! 2) \<and>
   comp_arc_list (heap ex_disjoint_unified ! 2) = [\<lparr>label = ''g'', val = 1\<rparr>] \<and>
   (\<exists>t. unify (Suc 0) ex_disjoint_unified 2 2 =
            Some (Inr (Some (length (heap ex_disjoint_unified))), t) \<and>
        node_type (heap t ! length (heap ex_disjoint_unified)) = node_type (heap ex_disjoint ! 2) \<and>
        name (heap t ! length (heap ex_disjoint_unified)) = name (heap ex_disjoint ! 2) \<and>
        arc_list (heap t ! length (heap ex_disjoint_unified)) =
          arc_list (heap ex_disjoint ! 2) @ comp_arc_list (heap ex_disjoint_unified ! 2) \<and>
        arc_list (heap t ! 2) = arc_list (heap ex_disjoint ! 2) \<and>
        \<not> struct_equal 3 (heap t) (length (heap ex_disjoint_unified)) 2)"
proof -
  have h1: "\<not> structure_sharing ex_disjoint" by (simp add: ex_disjoint_def)
  have h2: "2 < length (heap ex_disjoint)" by (simp add: ex_disjoint_def)
  have h3: "unify 1 ex_disjoint 2 3 = Some (Inr (Some 4), ex_disjoint_unified)" by code_simp
  have h4: "dereference ex_disjoint_unified 2 = Inr (3, ex_disjoint_unified)" by code_simp
  have h5: "comp_arc_list (heap ex_disjoint_unified ! 2) = [\<lparr>label = ''g'', val = 1\<rparr>]"
    by code_simp
  have h6: "comp_arc_list (heap ex_disjoint_unified ! 2) \<noteq> []" using h5 by simp
  from scratch_fields_persist[OF h1 h2 h3 h4, of 0]
  show ?thesis using h1 h2 h3 h4 h5 h6 by blast
qed

text \<open>
  C1 as the claim words it fails. On \<open>ex_disjoint\<close>: after \<open>unify\<close> of node 2, \<open>{f: X}\<close>, with
  node 3, \<open>{g: Y}\<close>, the call \<open>unify\<close> of node 2 with itself returns a node with the arcs
  \<open>f\<close> and \<open>g\<close>, which is not structurally equal to node 2. On \<open>ex_spine\<close>: after \<open>unify\<close> of
  node 2 with node 1 the forward chain of node 2 ends at node 0, and the call \<open>unify\<close> of
  node 2 with itself raises \<open>RecursionError\<close>, from the comparison of the nodes 2 and 1 in
  \<open>dereference\<close>.
\<close>

theorem input_preservation_counterexample:
  "unify 1 ex_disjoint 2 3 = Some (Inr (Some 4), ex_disjoint_unified) \<and>
   (case unify 1 ex_disjoint_unified 2 2 of
      Some (Inr (Some r), s2) \<Rightarrow>
        map label (arc_list (heap s2 ! r)) = [''f'', ''g''] \<and>
        map label (arc_list (heap s2 ! 2)) = [''f''] \<and>
        \<not> struct_equal 3 (heap s2) r 2 \<and> struct_equal 3 (heap s2) 2 2
    | _ \<Rightarrow> False) \<and>
   unify 2 ex_spine 2 1 = Some (Inr (Some 3), ex_spine_unified) \<and>
   fwd_path (heap ex_spine_unified) 2 [2, 1] 0 \<and>
   unify 1 ex_spine_unified 2 2 = Some (Inl RecursionError, ex_spine_unified)"
  by code_simp

section \<open>Unification of fresh trees\<close>

lemma find_arc_mem: "find_arc l arcs = Some a \<Longrightarrow> a \<in> set arcs \<and> label a = l"
  by (induction arcs) (auto split: if_splits)

lemma find_arc_None: "l \<notin> label ` set arcs \<Longrightarrow> find_arc l arcs = None"
  by (induction arcs) auto

lemma case_find_arc:
  "distinct (map label arcs) \<Longrightarrow>
     (case find_arc l arcs of None \<Rightarrow> True | Some arc1 \<Rightarrow> P arc1) =
     (\<forall>arc1 \<in> set arcs. label arc1 = l \<longrightarrow> P arc1)"
proof (induction arcs)
  case Nil
  show ?case by simp
next
  case (Cons x xs)
  show ?case
  proof (cases "label x = l")
    case True
    have "label x \<notin> label ` set xs" using Cons.prems by simp
    then have "\<forall>arc1\<in>set xs. label arc1 \<noteq> l" using True by blast
    then show ?thesis using True by auto
  next
    case False
    then show ?thesis using Cons by simp
  qed
qed

lemma footprint_self: "a \<in> footprint k h a"
  by (cases k) simp_all

lemma footprint_child:
  "arc \<in> set (arc_list (h ! a)) \<Longrightarrow> footprint k h (val arc) \<subseteq> footprint (Suc k) h a"
  by auto

lemma footprint_cong:
  "\<forall>i \<in> footprint k h a. h' ! i = h ! i \<Longrightarrow> footprint k h' a = footprint k h a"
proof (induction k arbitrary: a)
  case 0
  show ?case by simp
next
  case (Suc k)
  have a: "h' ! a = h ! a" using Suc.prems by simp
  have "footprint k h' (val arc) = footprint k h (val arc)"
    if "arc \<in> set (arc_list (h ! a))" for arc
  proof (rule Suc.IH)
    show "\<forall>i\<in>footprint k h (val arc). h' ! i = h ! i" using Suc.prems that by auto
  qed
  then show ?case using a by simp
qed

lemma fresh_tree_cong:
  "length h' = length h \<Longrightarrow> \<forall>i \<in> footprint k h a. h' ! i = h ! i \<Longrightarrow>
     fresh_tree k h' a = fresh_tree k h a"
proof (induction k arbitrary: a)
  case 0
  show ?case by simp
next
  case (Suc k)
  let ?A = "arc_list (h ! a)"
  have a: "h' ! a = h ! a" using Suc.prems by simp
  have sub: "\<forall>i\<in>footprint k h (val arc). h' ! i = h ! i" if "arc \<in> set ?A" for arc
    using Suc.prems that by auto
  have f: "footprint k h' (val arc) = footprint k h (val arc)" if "arc \<in> set ?A" for arc
    using footprint_cong[OF sub[OF that]] .
  have t: "fresh_tree k h' (val arc) = fresh_tree k h (val arc)" if "arc \<in> set ?A" for arc
    using Suc.IH[OF Suc.prems(1) sub[OF that]] .
  have c1: "(\<forall>arc\<in>set ?A. fresh_tree k h' (val arc) \<and> a \<notin> footprint k h' (val arc)) =
            (\<forall>arc\<in>set ?A. fresh_tree k h (val arc) \<and> a \<notin> footprint k h (val arc))"
    by (rule ball_cong) (simp_all add: f t)
  have c2: "(\<forall>arc\<in>set ?A. \<forall>arc'\<in>set ?A. label arc \<noteq> label arc' \<longrightarrow>
               footprint k h' (val arc) \<inter> footprint k h' (val arc') = {}) =
            (\<forall>arc\<in>set ?A. \<forall>arc'\<in>set ?A. label arc \<noteq> label arc' \<longrightarrow>
               footprint k h (val arc) \<inter> footprint k h (val arc') = {})"
    by (intro ball_cong refl) (simp add: f)
  show ?case by (simp only: fresh_tree.simps a Suc.prems(1) c1 c2)
qed

lemma unifiable_cong:
  "\<forall>i \<in> footprint k h a \<union> footprint k h b. h' ! i = h ! i \<Longrightarrow>
     unifiable k h' a b = unifiable k h a b"
proof (induction k arbitrary: a b)
  case 0
  show ?case by simp
next
  case (Suc k)
  let ?A = "arc_list (h ! a)" and ?B = "arc_list (h ! b)"
  have a: "h' ! a = h ! a" and b: "h' ! b = h ! b"
    using Suc.prems footprint_self[of a "Suc k" h] footprint_self[of b "Suc k" h] by blast+
  have r: "unifiable k h' (val arc1) (val arc) = unifiable k h (val arc1) (val arc)"
    if "arc \<in> set ?B" "arc1 \<in> set ?A" for arc arc1
  proof (rule Suc.IH)
    have "footprint k h (val arc1) \<subseteq> footprint (Suc k) h a"
      using that(2) by (rule footprint_child)
    moreover have "footprint k h (val arc) \<subseteq> footprint (Suc k) h b"
      using that(1) by (rule footprint_child)
    ultimately show "\<forall>i\<in>footprint k h (val arc1) \<union> footprint k h (val arc). h' ! i = h ! i"
      using Suc.prems by blast
  qed
  have c: "(case find_arc (label arc) ?A of
           None \<Rightarrow> True | Some arc1 \<Rightarrow> unifiable k h' (val arc1) (val arc)) =
        (case find_arc (label arc) ?A of
           None \<Rightarrow> True | Some arc1 \<Rightarrow> unifiable k h (val arc1) (val arc))"
    if "arc \<in> set ?B" for arc
  proof (cases "find_arc (label arc) ?A")
    case None
    then show ?thesis by simp
  next
    case (Some arc1)
    then have "arc1 \<in> set ?A" using find_arc_mem by blast
    then show ?thesis using Some r[OF that] by simp
  qed
  have e: "(\<forall>arc\<in>set ?B. case find_arc (label arc) ?A of
              None \<Rightarrow> True | Some arc1 \<Rightarrow> unifiable k h' (val arc1) (val arc)) =
           (\<forall>arc\<in>set ?B. case find_arc (label arc) ?A of
              None \<Rightarrow> True | Some arc1 \<Rightarrow> unifiable k h (val arc1) (val arc))"
    by (rule ball_cong) (simp_all add: c)
  show ?case by (simp only: unifiable.simps a b e)
qed

lemma unifiable_sym:
  "fresh_tree k h a \<Longrightarrow> fresh_tree k h b \<Longrightarrow> unifiable k h a b = unifiable k h b a"
proof (induction k arbitrary: a b)
  case 0
  show ?case by simp
next
  case (Suc k)
  let ?A = "arc_list (h ! a)" and ?B = "arc_list (h ! b)"
  have dA: "distinct (map label ?A)" and dB: "distinct (map label ?B)"
    using Suc.prems by simp_all
  have fA: "\<forall>x\<in>set ?A. fresh_tree k h (val x)" and fB: "\<forall>y\<in>set ?B. fresh_tree k h (val y)"
    using Suc.prems by simp_all
  have ch: "unifiable k h (val x) (val y) = unifiable k h (val y) (val x)"
    if "x \<in> set ?A" "y \<in> set ?B" for x y
    using Suc.IH[of "val x" "val y"] fA fB that by blast
  have "(\<forall>arc\<in>set ?B. case find_arc (label arc) ?A of
            None \<Rightarrow> True | Some arc1 \<Rightarrow> unifiable k h (val arc1) (val arc)) =
        (\<forall>arc\<in>set ?B. \<forall>arc1\<in>set ?A. label arc1 = label arc \<longrightarrow>
            unifiable k h (val arc1) (val arc))"
    by (simp only: case_find_arc[OF dA])
  also have "\<dots> = (\<forall>arc1\<in>set ?A. \<forall>arc\<in>set ?B. label arc = label arc1 \<longrightarrow>
            unifiable k h (val arc) (val arc1))"
    using ch by metis
  also have "\<dots> = (\<forall>arc\<in>set ?A. case find_arc (label arc) ?B of
            None \<Rightarrow> True | Some arc2 \<Rightarrow> unifiable k h (val arc2) (val arc))"
    by (simp only: case_find_arc[OF dB])
  finally have e: "(\<forall>arc\<in>set ?B. case find_arc (label arc) ?A of
            None \<Rightarrow> True | Some arc1 \<Rightarrow> unifiable k h (val arc1) (val arc)) =
        (\<forall>arc\<in>set ?A. case find_arc (label arc) ?B of
            None \<Rightarrow> True | Some arc2 \<Rightarrow> unifiable k h (val arc2) (val arc))" .
  show ?case
  proof (cases "is_leaf_node (h ! a) \<or> is_leaf_node (h ! b)")
    case True
    then show ?thesis by (simp only: unifiable.simps) auto
  next
    case False
    then show ?thesis by (simp only: unifiable.simps e) simp
  qed
qed

lemma for_shared_fresh:
  fixes k :: nat and A :: "Arc list" and p :: "Arc \<Rightarrow> addr" and d1 :: addr
  assumes IH: "\<And>s a b. fresh_tree k (heap s) a \<Longrightarrow> fresh_tree k (heap s) b \<Longrightarrow>
      footprint k (heap s) a \<inter> footprint k (heap s) b = {} \<Longrightarrow>
      \<exists>s'. unify_core k s a b =
             Some (if unifiable k (heap s) a b then Inr True else Inl UnificationFailure, s') \<and>
           (\<forall>i. i \<notin> footprint k (heap s) a \<union> footprint k (heap s) b \<longrightarrow>
                heap s' ! i = heap s ! i)"
  shows "arc_list (heap t ! d1) = A \<Longrightarrow> distinct (map label arcs) \<Longrightarrow>
     \<forall>arc\<in>set arcs. (\<exists>arc1. find_arc (label arc) A = Some arc1 \<and> val arc1 = p arc) \<and>
        fresh_tree k (heap t) (p arc) \<and> fresh_tree k (heap t) (val arc) \<and>
        footprint k (heap t) (p arc) \<inter> footprint k (heap t) (val arc) = {} \<and>
        d1 \<notin> footprint k (heap t) (p arc) \<union> footprint k (heap t) (val arc) \<Longrightarrow>
     \<forall>arc\<in>set arcs. \<forall>arc'\<in>set arcs. label arc \<noteq> label arc' \<longrightarrow>
        (footprint k (heap t) (p arc) \<union> footprint k (heap t) (val arc)) \<inter>
        (footprint k (heap t) (p arc') \<union> footprint k (heap t) (val arc')) = {} \<Longrightarrow>
     \<exists>t'. for_shared (unify_core k) t d1 arcs =
            Some (if (\<forall>arc\<in>set arcs. unifiable k (heap t) (p arc) (val arc))
                  then Inr () else Inl UnificationFailure, t') \<and>
          (\<forall>i. i \<notin> (\<Union>arc\<in>set arcs. footprint k (heap t) (p arc) \<union>
                                      footprint k (heap t) (val arc)) \<longrightarrow>
               heap t' ! i = heap t ! i)"
proof (induction arcs arbitrary: t)
  case Nil
  show ?case by simp
next
  case (Cons arc rest)
  let ?F = "\<lambda>h x. footprint k h (p x) \<union> footprint k h (val x)"
  note A = Cons.prems(1) and dist = Cons.prems(2) and each = Cons.prems(3)
    and apart = Cons.prems(4)
  have here: "(\<exists>arc1. find_arc (label arc) A = Some arc1 \<and> val arc1 = p arc) \<and>
        fresh_tree k (heap t) (p arc) \<and> fresh_tree k (heap t) (val arc) \<and>
        footprint k (heap t) (p arc) \<inter> footprint k (heap t) (val arc) = {} \<and>
        d1 \<notin> ?F (heap t) arc"
    using each by simp
  then obtain arc1 where fa: "find_arc (label arc) A = Some arc1" and v: "val arc1 = p arc"
    by blast
  have fr: "fresh_tree k (heap t) (p arc)" "fresh_tree k (heap t) (val arc)"
    "footprint k (heap t) (p arc) \<inter> footprint k (heap t) (val arc) = {}"
    and d1: "d1 \<notin> ?F (heap t) arc"
    using here by blast+
  from IH[OF fr] obtain t1 where
    call: "unify_core k t (p arc) (val arc) =
       Some (if unifiable k (heap t) (p arc) (val arc) then Inr True
             else Inl UnificationFailure, t1)"
    and frame1: "\<forall>i. i \<notin> ?F (heap t) arc \<longrightarrow> heap t1 ! i = heap t ! i"
    by blast
  have look: "find_arc (label arc) (arc_list (heap t ! d1)) = Some arc1"
    using A fa by simp
  show ?case
  proof (cases "unifiable k (heap t) (p arc) (val arc)")
    case False
    have "for_shared (unify_core k) t d1 (arc # rest) = Some (Inl UnificationFailure, t1)"
      using look v call False by simp
    moreover have "\<not> (\<forall>x\<in>set (arc # rest). unifiable k (heap t) (p x) (val x))"
      using False by simp
    moreover have "\<forall>i. i \<notin> (\<Union>x\<in>set (arc # rest). ?F (heap t) x) \<longrightarrow>
        heap t1 ! i = heap t ! i"
      using frame1 by simp
    ultimately show ?thesis by (simp del: for_shared.simps)
  next
    case True
    have si: "same_inputs t t1" using call by (rule unify_core_same_inputs)
    have len: "length (heap t1) = length (heap t)" using si by (rule same_inputs_length)
    have step: "for_shared (unify_core k) t d1 (arc # rest) =
                for_shared (unify_core k) t1 d1 rest"
      using look v call True by simp
    have lab: "label x \<noteq> label arc" if "x \<in> set rest" for x
    proof
      assume e: "label x = label arc"
      have "label x \<in> label ` set rest" using that by (rule imageI)
      then show False using dist e by simp
    qed
    have agree: "\<forall>i\<in>?F (heap t) x. heap t1 ! i = heap t ! i" if "x \<in> set rest" for x
    proof
      fix i assume i: "i \<in> ?F (heap t) x"
      have "?F (heap t) x \<inter> ?F (heap t) arc = {}"
        using apart lab[OF that] that by simp
      then have "i \<notin> ?F (heap t) arc" using i by blast
      then show "heap t1 ! i = heap t ! i" using frame1 by simp
    qed
    have fp: "footprint k (heap t1) (p x) = footprint k (heap t) (p x)"
      and fv: "footprint k (heap t1) (val x) = footprint k (heap t) (val x)"
      if "x \<in> set rest" for x
      using agree[OF that] footprint_cong[of k "heap t" "p x" "heap t1"]
        footprint_cong[of k "heap t" "val x" "heap t1"] by blast+
    have tp: "fresh_tree k (heap t1) (p x) = fresh_tree k (heap t) (p x)"
      and tv: "fresh_tree k (heap t1) (val x) = fresh_tree k (heap t) (val x)"
      if "x \<in> set rest" for x
      using agree[OF that] fresh_tree_cong[OF len, of k "p x"]
        fresh_tree_cong[OF len, of k "val x"] by blast+
    have un: "unifiable k (heap t1) (p x) (val x) = unifiable k (heap t) (p x) (val x)"
      if "x \<in> set rest" for x
      using agree[OF that] by (rule unifiable_cong)
    have A1: "arc_list (heap t1 ! d1) = A" using frame1 d1 A by simp
    have d: "distinct (map label rest)" using dist by simp
    have P3: "\<forall>x\<in>set rest. (\<exists>arc1. find_arc (label x) A = Some arc1 \<and> val arc1 = p x) \<and>
        fresh_tree k (heap t1) (p x) \<and> fresh_tree k (heap t1) (val x) \<and>
        footprint k (heap t1) (p x) \<inter> footprint k (heap t1) (val x) = {} \<and>
        d1 \<notin> footprint k (heap t1) (p x) \<union> footprint k (heap t1) (val x)"
    proof
      fix x assume x: "x \<in> set rest"
      then have "(\<exists>arc1. find_arc (label x) A = Some arc1 \<and> val arc1 = p x) \<and>
        fresh_tree k (heap t) (p x) \<and> fresh_tree k (heap t) (val x) \<and>
        footprint k (heap t) (p x) \<inter> footprint k (heap t) (val x) = {} \<and>
        d1 \<notin> footprint k (heap t) (p x) \<union> footprint k (heap t) (val x)"
        using each by simp
      then show "(\<exists>arc1. find_arc (label x) A = Some arc1 \<and> val arc1 = p x) \<and>
        fresh_tree k (heap t1) (p x) \<and> fresh_tree k (heap t1) (val x) \<and>
        footprint k (heap t1) (p x) \<inter> footprint k (heap t1) (val x) = {} \<and>
        d1 \<notin> footprint k (heap t1) (p x) \<union> footprint k (heap t1) (val x)"
        by (simp add: fp[OF x] fv[OF x] tp[OF x] tv[OF x])
    qed
    have P4: "\<forall>x\<in>set rest. \<forall>y\<in>set rest. label x \<noteq> label y \<longrightarrow>
        (footprint k (heap t1) (p x) \<union> footprint k (heap t1) (val x)) \<inter>
        (footprint k (heap t1) (p y) \<union> footprint k (heap t1) (val y)) = {}"
    proof (intro ballI impI)
      fix x y assume x: "x \<in> set rest" and y: "y \<in> set rest" and l: "label x \<noteq> label y"
      have "?F (heap t) x \<inter> ?F (heap t) y = {}" using apart x y l by simp
      then show "(footprint k (heap t1) (p x) \<union> footprint k (heap t1) (val x)) \<inter>
        (footprint k (heap t1) (p y) \<union> footprint k (heap t1) (val y)) = {}"
        by (simp add: fp[OF x] fv[OF x] fp[OF y] fv[OF y])
    qed
    from Cons.IH[OF A1 d P3 P4] obtain t' where
      rest: "for_shared (unify_core k) t1 d1 rest =
         Some (if (\<forall>x\<in>set rest. unifiable k (heap t1) (p x) (val x))
               then Inr () else Inl UnificationFailure, t')"
      and frame2: "\<forall>i. i \<notin> (\<Union>x\<in>set rest. ?F (heap t1) x) \<longrightarrow> heap t' ! i = heap t1 ! i"
      by blast
    have all: "(\<forall>x\<in>set rest. unifiable k (heap t1) (p x) (val x)) =
               (\<forall>x\<in>set (arc # rest). unifiable k (heap t) (p x) (val x))"
      using un True by simp
    have res: "for_shared (unify_core k) t d1 (arc # rest) =
         Some (if (\<forall>x\<in>set (arc # rest). unifiable k (heap t) (p x) (val x))
               then Inr () else Inl UnificationFailure, t')"
      unfolding step rest all ..
    have frame: "\<forall>i. i \<notin> (\<Union>x\<in>set (arc # rest). ?F (heap t) x) \<longrightarrow> heap t' ! i = heap t ! i"
    proof (intro allI impI)
      fix i assume i: "i \<notin> (\<Union>x\<in>set (arc # rest). ?F (heap t) x)"
      then have i1: "i \<notin> ?F (heap t) arc" by simp
      have "i \<notin> ?F (heap t1) x" if "x \<in> set rest" for x
        using i that by (simp add: fp[OF that] fv[OF that])
      then have "i \<notin> (\<Union>x\<in>set rest. ?F (heap t1) x)" by blast
      then have "heap t' ! i = heap t1 ! i" using frame2 by blast
      then show "heap t' ! i = heap t ! i" using frame1 i1 by simp
    qed
    show ?thesis using res frame by blast
  qed
qed

lemma unify_core_fresh:
  "fresh_tree k (heap s) a \<Longrightarrow> fresh_tree k (heap s) b \<Longrightarrow>
   footprint k (heap s) a \<inter> footprint k (heap s) b = {} \<Longrightarrow>
   \<exists>s'. unify_core k s a b =
          Some (if unifiable k (heap s) a b then Inr True else Inl UnificationFailure, s') \<and>
        (\<forall>i. i \<notin> footprint k (heap s) a \<union> footprint k (heap s) b \<longrightarrow>
             heap s' ! i = heap s ! i) \<and>
        (unifiable k (heap s) a b \<longrightarrow>
           comp_arc_list (heap s' ! a) =
             (if is_leaf_node (heap s ! a) \<or> is_leaf_node (heap s ! b) then []
              else complement_arcs (arc_list (heap s ! b)) (arc_list (heap s ! a))))"
proof (induction k arbitrary: s a b)
  case 0
  then show ?case by simp
next
  case (Suc k)
  let ?A = "arc_list (heap s ! a)" and ?B = "arc_list (heap s ! b)"
  note fa = Suc.prems(1) and fb = Suc.prems(2) and disj = Suc.prems(3)
  have a: "a < length (heap s)" and b: "b < length (heap s)"
    and fwa: "forward (heap s ! a) = None" and fwb: "forward (heap s ! b) = None"
    and ca: "comp_arc_list (heap s ! a) = []"
    and dA: "distinct (map label ?A)" and dB: "distinct (map label ?B)"
    using fa fb by simp_all
  have chA: "\<forall>x\<in>set ?A. fresh_tree k (heap s) (val x) \<and> a \<notin> footprint k (heap s) (val x)"
    and chB: "\<forall>y\<in>set ?B. fresh_tree k (heap s) (val y) \<and> b \<notin> footprint k (heap s) (val y)"
    and apA: "\<forall>x\<in>set ?A. \<forall>x'\<in>set ?A. label x \<noteq> label x' \<longrightarrow>
                footprint k (heap s) (val x) \<inter> footprint k (heap s) (val x') = {}"
    and apB: "\<forall>y\<in>set ?B. \<forall>y'\<in>set ?B. label y \<noteq> label y' \<longrightarrow>
                footprint k (heap s) (val y) \<inter> footprint k (heap s) (val y') = {}"
    using fa fb by simp_all
  have ina: "a \<in> footprint (Suc k) (heap s) a" and inb: "b \<in> footprint (Suc k) (heap s) b"
    by (rule footprint_self)+
  have ne: "a \<noteq> b" using ina inb disj by blast
  have da: "dereference s a = Inr (a, s)" using fwa a by (rule dereference_end)
  have db: "dereference s b = Inr (b, s)" using fwb b by (rule dereference_end)
  have subA: "footprint k (heap s) (val x) \<subseteq> footprint (Suc k) (heap s) a"
    if "x \<in> set ?A" for x using that by (rule footprint_child)
  have subB: "footprint k (heap s) (val y) \<subseteq> footprint (Suc k) (heap s) b"
    if "y \<in> set ?B" for y using that by (rule footprint_child)
  consider (ll) "is_leaf_node (heap s ! a)" "is_leaf_node (heap s ! b)"
    | (lc) "is_leaf_node (heap s ! a)" "\<not> is_leaf_node (heap s ! b)"
    | (cl) "\<not> is_leaf_node (heap s ! a)" "is_leaf_node (heap s ! b)"
    | (cc) "\<not> is_leaf_node (heap s ! a)" "\<not> is_leaf_node (heap s ! b)"
    by blast
  then show ?case
  proof cases
    case ll
    have core: "unify_core (Suc k) s a b =
       (if name (heap s ! a) = name (heap s ! b) then Some (Inr True, s)
        else Some (Inl UnificationFailure, s))"
      using da db ne ll by simp
    have un: "unifiable (Suc k) (heap s) a b = (name (heap s ! a) = name (heap s ! b))"
      using ll by simp
    show ?thesis
      unfolding core un using ll ca by (auto simp del: unify_core.simps unifiable.simps)
  next
    case lc
    have core: "unify_core (Suc k) s a b = Some (Inr True, forward_leaf s a b)"
      using da db ne lc by simp
    have un: "unifiable (Suc k) (heap s) a b" using lc by simp
    have fr: "\<forall>i. i \<notin> footprint (Suc k) (heap s) a \<union> footprint (Suc k) (heap s) b \<longrightarrow>
        heap (forward_leaf s a b) ! i = heap s ! i"
    proof (intro allI impI)
      fix i assume "i \<notin> footprint (Suc k) (heap s) a \<union> footprint (Suc k) (heap s) b"
      then have "i \<noteq> a" using ina by blast
      then show "heap (forward_leaf s a b) ! i = heap s ! i" by (simp add: forward_leaf_eq)
    qed
    have cm: "comp_arc_list (heap (forward_leaf s a b) ! a) = []"
      using a ca by (simp add: forward_leaf_eq)
    show ?thesis using core un fr cm lc by (simp del: unify_core.simps unifiable.simps footprint.simps)
  next
    case cl
    have core: "unify_core (Suc k) s a b = Some (Inr True, forward_leaf s b a)"
      using da db ne cl by simp
    have un: "unifiable (Suc k) (heap s) a b" using cl by simp
    have fr: "\<forall>i. i \<notin> footprint (Suc k) (heap s) a \<union> footprint (Suc k) (heap s) b \<longrightarrow>
        heap (forward_leaf s b a) ! i = heap s ! i"
    proof (intro allI impI)
      fix i assume "i \<notin> footprint (Suc k) (heap s) a \<union> footprint (Suc k) (heap s) b"
      then have "i \<noteq> b" using inb by blast
      then show "heap (forward_leaf s b a) ! i = heap s ! i" by (simp add: forward_leaf_eq)
    qed
    have cm: "comp_arc_list (heap (forward_leaf s b a) ! a) = []"
      using ne ca by (simp add: forward_leaf_eq)
    show ?thesis using core un fr cm cl by (simp del: unify_core.simps unifiable.simps footprint.simps)
  next
    case cc
    define p where "p = (\<lambda>arc::Arc. case find_arc (label arc) ?A of None \<Rightarrow> a | Some arc1 \<Rightarrow> val arc1)"
    define sh where "sh = intersect_arcs ?A ?B"
    define nw where "nw = complement_arcs ?B ?A"
    let ?F = "\<lambda>x. footprint k (heap s) (p x) \<union> footprint k (heap s) (val x)"
    have shf: "sh = filter (\<lambda>y. label y \<in> label ` set ?A) ?B"
      by (simp add: sh_def intersect_arcs_filter)
    note u = unify_core_nonleaf[OF da db ne cc, of k, folded sh_def nw_def]
    have IH': "\<And>s a b. fresh_tree k (heap s) a \<Longrightarrow> fresh_tree k (heap s) b \<Longrightarrow>
      footprint k (heap s) a \<inter> footprint k (heap s) b = {} \<Longrightarrow>
      \<exists>s'. unify_core k s a b =
             Some (if unifiable k (heap s) a b then Inr True else Inl UnificationFailure, s') \<and>
           (\<forall>i. i \<notin> footprint k (heap s) a \<union> footprint k (heap s) b \<longrightarrow>
                heap s' ! i = heap s ! i)"
      using Suc.IH by blast
    have partner: "\<exists>arc1. find_arc (label y) ?A = Some arc1 \<and> val arc1 = p y \<and> arc1 \<in> set ?A \<and>
        label arc1 = label y"
      if "y \<in> set sh" for y
    proof -
      have "label y \<in> set (map label ?A)" using that by (simp add: shf)
      from find_arc_Some[OF this] obtain arc1 where
        "find_arc (label y) ?A = Some arc1" "label arc1 = label y" "arc1 \<in> set ?A" by blast
      then show ?thesis by (simp add: p_def)
    qed
    have inB: "y \<in> set ?B" if "y \<in> set sh" for y using that by (simp add: shf)
    have d: "distinct (map label sh)" unfolding shf using dB by (rule distinct_map_filter)
    have each: "\<forall>y\<in>set sh. (\<exists>arc1. find_arc (label y) ?A = Some arc1 \<and> val arc1 = p y) \<and>
        fresh_tree k (heap s) (p y) \<and> fresh_tree k (heap s) (val y) \<and>
        footprint k (heap s) (p y) \<inter> footprint k (heap s) (val y) = {} \<and>
        a \<notin> footprint k (heap s) (p y) \<union> footprint k (heap s) (val y)"
    proof
      fix y assume y: "y \<in> set sh"
      from partner[OF y] obtain arc1 where f: "find_arc (label y) ?A = Some arc1"
        and v: "val arc1 = p y" and m: "arc1 \<in> set ?A" by blast
      have t1: "fresh_tree k (heap s) (p y)" and n1: "a \<notin> footprint k (heap s) (p y)"
        using chA m v by auto
      have t2: "fresh_tree k (heap s) (val y)" using chB inB[OF y] by blast
      have s1: "footprint k (heap s) (p y) \<subseteq> footprint (Suc k) (heap s) a"
        using subA[OF m] v by simp
      have s2: "footprint k (heap s) (val y) \<subseteq> footprint (Suc k) (heap s) b"
        using subB[OF inB[OF y]] .
      have dj: "footprint k (heap s) (p y) \<inter> footprint k (heap s) (val y) = {}"
        using s1 s2 disj by blast
      have n2: "a \<notin> footprint k (heap s) (val y)" using s2 ina disj by blast
      show "(\<exists>arc1. find_arc (label y) ?A = Some arc1 \<and> val arc1 = p y) \<and>
        fresh_tree k (heap s) (p y) \<and> fresh_tree k (heap s) (val y) \<and>
        footprint k (heap s) (p y) \<inter> footprint k (heap s) (val y) = {} \<and>
        a \<notin> footprint k (heap s) (p y) \<union> footprint k (heap s) (val y)"
        using f v t1 t2 dj n1 n2 by blast
    qed
    have apart: "\<forall>y\<in>set sh. \<forall>y'\<in>set sh. label y \<noteq> label y' \<longrightarrow> ?F y \<inter> ?F y' = {}"
    proof (intro ballI impI)
      fix y y' assume y: "y \<in> set sh" and y': "y' \<in> set sh" and l: "label y \<noteq> label y'"
      from partner[OF y] obtain x where vx: "val x = p y" and mx: "x \<in> set ?A"
        and lx: "label x = label y" by blast
      from partner[OF y'] obtain x' where vx': "val x' = p y'" and mx': "x' \<in> set ?A"
        and lx': "label x' = label y'" by blast
      have "label x \<noteq> label x'" using l lx lx' by simp
      then have e1: "footprint k (heap s) (p y) \<inter> footprint k (heap s) (p y') = {}"
        using apA mx mx' vx vx' by metis
      have e2: "footprint k (heap s) (val y) \<inter> footprint k (heap s) (val y') = {}"
        using apB inB[OF y] inB[OF y'] l by blast
      have s1: "footprint k (heap s) (p y) \<subseteq> footprint (Suc k) (heap s) a"
        using subA[OF mx] vx by simp
      have s1': "footprint k (heap s) (p y') \<subseteq> footprint (Suc k) (heap s) a"
        using subA[OF mx'] vx' by simp
      have s2: "footprint k (heap s) (val y) \<subseteq> footprint (Suc k) (heap s) b"
        using subB[OF inB[OF y]] .
      have s2': "footprint k (heap s) (val y') \<subseteq> footprint (Suc k) (heap s) b"
        using subB[OF inB[OF y']] .
      show "?F y \<inter> ?F y' = {}" using e1 e2 s1 s1' s2 s2' disj by blast
    qed
    from for_shared_fresh[of k s a ?A sh p, OF IH' refl d each apart] obtain t where
      loop: "for_shared (unify_core k) s a sh =
         Some (if (\<forall>y\<in>set sh. unifiable k (heap s) (p y) (val y))
               then Inr () else Inl UnificationFailure, t)"
      and frame: "\<forall>i. i \<notin> (\<Union>y\<in>set sh. ?F y) \<longrightarrow> heap t ! i = heap s ! i"
      by blast
    have inside: "(\<Union>y\<in>set sh. ?F y) \<subseteq>
        (footprint (Suc k) (heap s) a - {a}) \<union> (footprint (Suc k) (heap s) b - {b})"
    proof
      fix i assume "i \<in> (\<Union>y\<in>set sh. ?F y)"
      then obtain y where y: "y \<in> set sh" and i: "i \<in> ?F y" by blast
      from partner[OF y] obtain x where vx: "val x = p y" and mx: "x \<in> set ?A" by blast
      have "a \<notin> footprint k (heap s) (p y)" using chA mx vx by auto
      moreover have "b \<notin> footprint k (heap s) (val y)" using chB inB[OF y] by blast
      moreover have "footprint k (heap s) (p y) \<subseteq> footprint (Suc k) (heap s) a"
        using subA[OF mx] vx by simp
      moreover have "footprint k (heap s) (val y) \<subseteq> footprint (Suc k) (heap s) b"
        using subB[OF inB[OF y]] .
      ultimately show "i \<in> (footprint (Suc k) (heap s) a - {a}) \<union>
                         (footprint (Suc k) (heap s) b - {b})"
        using i by blast
    qed
    have un: "unifiable (Suc k) (heap s) a b = (\<forall>y\<in>set sh. unifiable k (heap s) (p y) (val y))"
    proof -
      have c: "(case find_arc (label y) ?A of None \<Rightarrow> True
                | Some arc1 \<Rightarrow> unifiable k (heap s) (val arc1) (val y)) =
               (label y \<in> label ` set ?A \<longrightarrow> unifiable k (heap s) (p y) (val y))" for y
      proof (cases "label y \<in> label ` set ?A")
        case True
        then have "label y \<in> set (map label ?A)" by simp
        from find_arc_Some[OF this] obtain arc1 where
          "find_arc (label y) ?A = Some arc1" by blast
        then show ?thesis using True by (simp add: p_def)
      next
        case False
        then show ?thesis by (simp add: find_arc_None)
      qed
      have "unifiable (Suc k) (heap s) a b =
             (\<forall>y\<in>set ?B. label y \<in> label ` set ?A \<longrightarrow> unifiable k (heap s) (p y) (val y))"
        using cc by (simp add: c)
      also have "\<dots> = (\<forall>y\<in>set sh. unifiable k (heap s) (p y) (val y))"
        unfolding shf by auto
      finally show ?thesis .
    qed
    have ta: "heap t ! a = heap s ! a"
    proof -
      have "a \<notin> (\<Union>y\<in>set sh. ?F y)" using inside ina disj by blast
      then show ?thesis using frame by blast
    qed
    show ?thesis
    proof (cases "unifiable (Suc k) (heap s) a b")
      case False
      then have core: "unify_core (Suc k) s a b = Some (Inl UnificationFailure, t)"
        using u loop un by simp
      have "\<forall>i. i \<notin> footprint (Suc k) (heap s) a \<union> footprint (Suc k) (heap s) b \<longrightarrow>
               heap t ! i = heap s ! i"
        using frame inside by blast
      then show ?thesis using core False by (simp del: unify_core.simps unifiable.simps footprint.simps)
    next
      case True
      then have core: "unify_core (Suc k) s a b = Some (Inr True, merge_complement t a b nw)"
        using u loop un by simp
      have si: "same_inputs s t"
        using loop by (rule for_shared_same_inputs[of "unify_core k", rotated])
                       (rule unify_core_same_inputs)
      have at: "a < length (heap t)" using same_inputs_length[OF si] a by simp
      have fr: "\<forall>i. i \<notin> footprint (Suc k) (heap s) a \<union> footprint (Suc k) (heap s) b \<longrightarrow>
               heap (merge_complement t a b nw) ! i = heap s ! i"
      proof (intro allI impI)
        fix i assume i: "i \<notin> footprint (Suc k) (heap s) a \<union> footprint (Suc k) (heap s) b"
        then have "i \<noteq> a" using ina by blast
        then have "heap (merge_complement t a b nw) ! i = heap t ! i"
          by (simp add: merge_complement_eq)
        moreover have "heap t ! i = heap s ! i" using frame inside i by blast
        ultimately show "heap (merge_complement t a b nw) ! i = heap s ! i" by simp
      qed
      have cm: "comp_arc_list (heap (merge_complement t a b nw) ! a) = nw"
        using at ta ca by (simp add: merge_complement_eq)
      show ?thesis using core True fr cm cc
        by (simp add: nw_def del: unify_core.simps unifiable.simps footprint.simps)
    qed
  qed
qed

lemma fresh_tree_Suc:
  "fresh_tree k h a \<Longrightarrow> fresh_tree (Suc k) h a \<and> footprint (Suc k) h a = footprint k h a"
proof (induction k arbitrary: a)
  case 0
  then show ?case by simp
next
  case (Suc k)
  let ?A = "arc_list (h ! a)"
  have ch: "fresh_tree (Suc k) h (val x) \<and> footprint (Suc k) h (val x) = footprint k h (val x)"
    if "x \<in> set ?A" for x
    using Suc.IH[of "val x"] Suc.prems that by simp
  have e: "footprint (Suc k) h (val x) = footprint k h (val x)" if "x \<in> set ?A" for x
    using ch[OF that] by blast
  have t: "fresh_tree (Suc k) h (val x)" if "x \<in> set ?A" for x
    using ch[OF that] by blast
  have f: "footprint (Suc (Suc k)) h a = footprint (Suc k) h a"
  proof -
    have "(\<Union>x\<in>set ?A. footprint (Suc k) h (val x)) = (\<Union>x\<in>set ?A. footprint k h (val x))"
      using e by (intro SUP_cong refl)
    then show ?thesis by (simp only: footprint.simps)
  qed
  have c1: "\<forall>x\<in>set ?A. fresh_tree (Suc k) h (val x) \<and> a \<notin> footprint (Suc k) h (val x)"
  proof
    fix x assume x: "x \<in> set ?A"
    have "a \<notin> footprint k h (val x)" using Suc.prems x by simp
    then show "fresh_tree (Suc k) h (val x) \<and> a \<notin> footprint (Suc k) h (val x)"
      using t[OF x] e[OF x] by simp
  qed
  have c2: "\<forall>x\<in>set ?A. \<forall>x'\<in>set ?A. label x \<noteq> label x' \<longrightarrow>
              footprint (Suc k) h (val x) \<inter> footprint (Suc k) h (val x') = {}"
  proof (intro ballI impI)
    fix x x' assume x: "x \<in> set ?A" and x': "x' \<in> set ?A" and l: "label x \<noteq> label x'"
    have "footprint k h (val x) \<inter> footprint k h (val x') = {}"
      using Suc.prems x x' l by simp
    then show "footprint (Suc k) h (val x) \<inter> footprint (Suc k) h (val x') = {}"
      using e[OF x] e[OF x'] by simp
  qed
  have "a < length h" "forward (h ! a) = None" "comp_arc_list (h ! a) = []"
    "distinct (map label ?A)"
    using Suc.prems by simp_all
  then have "fresh_tree (Suc (Suc k)) h a"
    using c1 c2 by (simp only: fresh_tree.simps)
  then show ?case using f by blast
qed

lemma fresh_tree_mono:
  "fresh_tree k h a \<Longrightarrow> fresh_tree (k + j) h a \<and> footprint (k + j) h a = footprint k h a"
proof (induction j)
  case 0
  then show ?case by simp
next
  case (Suc j)
  then have "fresh_tree (k + j) h a" and e: "footprint (k + j) h a = footprint k h a"
    by blast+
  from fresh_tree_Suc[OF this(1)] e show ?case by simp
qed

lemma unify_on_fresh_trees:
  assumes nsh: "\<not> structure_sharing s"
    and fx: "fresh_tree k (heap s) x" and fy: "fresh_tree k (heap s) y"
    and disj: "footprint k (heap s) x \<inter> footprint k (heap s) y = {}"
  shows "if unifiable k (heap s) x y
         then \<exists>t. unify k s x y = Some (Inr (Some (length (heap s))), t) \<and>
                node_type (heap t ! length (heap s)) = node_type (heap s ! x) \<and>
                name (heap t ! length (heap s)) = name (heap s ! x) \<and>
                arc_list (heap t ! length (heap s)) =
                  arc_list (heap s ! x) @
                  (if is_leaf_node (heap s ! x) \<or> is_leaf_node (heap s ! y) then []
                   else complement_arcs (arc_list (heap s ! y)) (arc_list (heap s ! x))) \<and>
                (\<forall>i < length (heap s).
                   node_type (heap t ! i) = node_type (heap s ! i) \<and>
                   name (heap t ! i) = name (heap s ! i) \<and>
                   arc_list (heap t ! i) = arc_list (heap s ! i))
         else \<exists>t. unify k s x y = Some (Inr None, t)"
proof -
  from unify_core_fresh[OF fx fy disj] obtain s' where
    core: "unify_core k s x y =
       Some (if unifiable k (heap s) x y then Inr True else Inl UnificationFailure, s')"
    and cm: "unifiable k (heap s) x y \<longrightarrow>
           comp_arc_list (heap s' ! x) =
             (if is_leaf_node (heap s ! x) \<or> is_leaf_node (heap s ! y) then []
              else complement_arcs (arc_list (heap s ! y)) (arc_list (heap s ! x)))"
    by blast
  show ?thesis
  proof (cases "unifiable k (heap s) x y")
    case False
    then have "unify k s x y = Some (Inr None, s')" using core by (simp add: unify_def)
    then show ?thesis using False by simp
  next
    case True
    then have core': "unify_core k s x y = Some (Inr True, s')" using core by simp
    have si: "same_inputs s s'" using core' by (rule unify_core_same_inputs)
    have l: "length (heap s') = length (heap s)" using si by (rule same_inputs_length)
    have nsh': "\<not> structure_sharing s'" using si nsh by (simp add: same_inputs_def)
    have x: "x < length (heap s)" using fx by (cases k) simp_all
    have x': "x < length (heap s')" using x l by simp
    define n where "n = \<lparr>node_type = node_type (heap s' ! x),
           arc_list = arc_list (heap s' ! x) @ comp_arc_list (heap s' ! x),
           comp_arc_list = [], forward = None, copy = None, generation = 0, mark = None,
           name = name (heap s' ! x)\<rparr>"
    define t where "t = s'\<lparr>heap := heap s' @ [n]\<rparr>"
    have u: "unify k s x y = Some (Inr (Some (length (heap s))), t)"
      using core' copy_no_sharing[OF nsh' x'] l by (simp add: unify_def t_def n_def)
    have new: "heap t ! length (heap s) = n" unfolding l[symmetric] by (simp add: t_def)
    have old: "heap t ! i = heap s' ! i" if "i < length (heap s)" for i
      using that l by (simp add: t_def nth_append)
    have keep: "\<forall>i < length (heap s).
                   node_type (heap t ! i) = node_type (heap s ! i) \<and>
                   name (heap t ! i) = name (heap s ! i) \<and>
                   arc_list (heap t ! i) = arc_list (heap s ! i)"
      using old same_inputs_nth[OF si] by simp
    have sx: "node_type (heap s' ! x) = node_type (heap s ! x)"
      "name (heap s' ! x) = name (heap s ! x)" "arc_list (heap s' ! x) = arc_list (heap s ! x)"
      using same_inputs_nth[OF si x] by simp_all
    have "node_type (heap t ! length (heap s)) = node_type (heap s ! x)"
      "name (heap t ! length (heap s)) = name (heap s ! x)"
      "arc_list (heap t ! length (heap s)) =
         arc_list (heap s ! x) @
         (if is_leaf_node (heap s ! x) \<or> is_leaf_node (heap s ! y) then []
          else complement_arcs (arc_list (heap s ! y)) (arc_list (heap s ! x)))"
      using new sx cm True by (simp_all add: n_def)
    then show ?thesis using True u keep by simp
  qed
qed

lemma labels_merge:
  "set (map label (A @ complement_arcs B A)) = set (map label (B @ complement_arcs A B))"
  by (auto simp: complement_arcs_filter)

text \<open>
  C4, as far as the source has it, with structure sharing switched off. Let \<open>x\<close> and \<open>y\<close> be
  the roots of two fresh trees without a common node: no node has a forward or complement
  arcs, the labels of every \<open>arc_list\<close> are distinct, and no node is reached twice. Then,
  at every depth of calls that is enough for the two trees, \<open>unify(x, y)\<close> and
  \<open>unify(y, x)\<close>, each run from the same state, both return \<open>None\<close> or both return a new
  node. The node returned by \<open>unify(x, y)\<close> has the type and the name of \<open>x\<close> and the arcs
  of \<open>x\<close> followed by the arcs of \<open>y\<close> whose label \<open>x\<close> does not have; the node returned by
  \<open>unify(y, x)\<close> has the type and the name of \<open>y\<close> and the arcs of \<open>y\<close> followed by the arcs
  of \<open>x\<close> whose label \<open>y\<close> does not have; when \<open>x\<close> or \<open>y\<close> is a leaf, nothing is added to
  the arcs of the first operand. When neither is a leaf, the two nodes carry the same set
  of labels. In both runs every node of the inputs keeps its type, its name and its
  \<open>arc_list\<close>, so under a label of both the one node has the child of \<open>x\<close> and the other
  the child of \<open>y\<close>, as they were.
\<close>

theorem unify_commutes_on_fresh_trees:
  assumes nsh: "\<not> structure_sharing s"
    and fx: "fresh_tree k (heap s) x" and fy: "fresh_tree k (heap s) y"
    and disj: "footprint k (heap s) x \<inter> footprint k (heap s) y = {}"
  shows "(\<exists>t1 t2. unify (k + j) s x y = Some (Inr None, t1) \<and>
                  unify (k + j) s y x = Some (Inr None, t2)) \<or>
         (\<exists>t1 t2. unify (k + j) s x y = Some (Inr (Some (length (heap s))), t1) \<and>
                  unify (k + j) s y x = Some (Inr (Some (length (heap s))), t2) \<and>
                  node_type (heap t1 ! length (heap s)) = node_type (heap s ! x) \<and>
                  name (heap t1 ! length (heap s)) = name (heap s ! x) \<and>
                  arc_list (heap t1 ! length (heap s)) =
                    arc_list (heap s ! x) @
                    (if is_leaf_node (heap s ! x) \<or> is_leaf_node (heap s ! y) then []
                     else complement_arcs (arc_list (heap s ! y)) (arc_list (heap s ! x))) \<and>
                  node_type (heap t2 ! length (heap s)) = node_type (heap s ! y) \<and>
                  name (heap t2 ! length (heap s)) = name (heap s ! y) \<and>
                  arc_list (heap t2 ! length (heap s)) =
                    arc_list (heap s ! y) @
                    (if is_leaf_node (heap s ! y) \<or> is_leaf_node (heap s ! x) then []
                     else complement_arcs (arc_list (heap s ! x)) (arc_list (heap s ! y))) \<and>
                  (\<not> is_leaf_node (heap s ! x) \<and> \<not> is_leaf_node (heap s ! y) \<longrightarrow>
                     set (map label (arc_list (heap t1 ! length (heap s)))) =
                     set (map label (arc_list (heap t2 ! length (heap s))))) \<and>
                  (\<forall>i < length (heap s).
                     node_type (heap t1 ! i) = node_type (heap s ! i) \<and>
                     name (heap t1 ! i) = name (heap s ! i) \<and>
                     arc_list (heap t1 ! i) = arc_list (heap s ! i) \<and>
                     node_type (heap t2 ! i) = node_type (heap s ! i) \<and>
                     name (heap t2 ! i) = name (heap s ! i) \<and>
                     arc_list (heap t2 ! i) = arc_list (heap s ! i)))"
proof -
  have fx': "fresh_tree (k + j) (heap s) x" and ex: "footprint (k + j) (heap s) x = footprint k (heap s) x"
    using fresh_tree_mono[OF fx, of j] by blast+
  have fy': "fresh_tree (k + j) (heap s) y" and ey: "footprint (k + j) (heap s) y = footprint k (heap s) y"
    using fresh_tree_mono[OF fy, of j] by blast+
  have dxy: "footprint (k + j) (heap s) x \<inter> footprint (k + j) (heap s) y = {}"
    using disj ex ey by simp
  have dyx: "footprint (k + j) (heap s) y \<inter> footprint (k + j) (heap s) x = {}"
    using dxy by blast
  note a = unify_on_fresh_trees[OF nsh fx' fy' dxy]
  note b = unify_on_fresh_trees[OF nsh fy' fx' dyx]
  have sym: "unifiable (k + j) (heap s) y x = unifiable (k + j) (heap s) x y"
    using unifiable_sym[OF fx' fy'] by simp
  show ?thesis
  proof (cases "unifiable (k + j) (heap s) x y")
    case False
    then show ?thesis using a b sym by auto
  next
    case True
    from a True obtain t1 where
      u1: "unify (k + j) s x y = Some (Inr (Some (length (heap s))), t1)"
      and n1: "node_type (heap t1 ! length (heap s)) = node_type (heap s ! x)"
              "name (heap t1 ! length (heap s)) = name (heap s ! x)"
      and a1: "arc_list (heap t1 ! length (heap s)) =
                 arc_list (heap s ! x) @
                 (if is_leaf_node (heap s ! x) \<or> is_leaf_node (heap s ! y) then []
                  else complement_arcs (arc_list (heap s ! y)) (arc_list (heap s ! x)))"
      and k1: "\<forall>i < length (heap s).
                   node_type (heap t1 ! i) = node_type (heap s ! i) \<and>
                   name (heap t1 ! i) = name (heap s ! i) \<and>
                   arc_list (heap t1 ! i) = arc_list (heap s ! i)"
      by auto
    from b True sym obtain t2 where
      u2: "unify (k + j) s y x = Some (Inr (Some (length (heap s))), t2)"
      and n2: "node_type (heap t2 ! length (heap s)) = node_type (heap s ! y)"
              "name (heap t2 ! length (heap s)) = name (heap s ! y)"
      and a2: "arc_list (heap t2 ! length (heap s)) =
                 arc_list (heap s ! y) @
                 (if is_leaf_node (heap s ! y) \<or> is_leaf_node (heap s ! x) then []
                  else complement_arcs (arc_list (heap s ! x)) (arc_list (heap s ! y)))"
      and k2: "\<forall>i < length (heap s).
                   node_type (heap t2 ! i) = node_type (heap s ! i) \<and>
                   name (heap t2 ! i) = name (heap s ! i) \<and>
                   arc_list (heap t2 ! i) = arc_list (heap s ! i)"
      by auto
    have lab: "\<not> is_leaf_node (heap s ! x) \<and> \<not> is_leaf_node (heap s ! y) \<longrightarrow>
                 set (map label (arc_list (heap t1 ! length (heap s)))) =
                 set (map label (arc_list (heap t2 ! length (heap s))))"
      unfolding a1 a2 using labels_merge[of "arc_list (heap s ! x)" "arc_list (heap s ! y)"]
      by simp
    have keep: "\<forall>i < length (heap s).
                     node_type (heap t1 ! i) = node_type (heap s ! i) \<and>
                     name (heap t1 ! i) = name (heap s ! i) \<and>
                     arc_list (heap t1 ! i) = arc_list (heap s ! i) \<and>
                     node_type (heap t2 ! i) = node_type (heap s ! i) \<and>
                     name (heap t2 ! i) = name (heap s ! i) \<and>
                     arc_list (heap t2 ! i) = arc_list (heap s ! i)"
      using k1 k2 by simp
    show ?thesis using u1 u2 n1 n2 a1 a2 lab keep by blast
  qed
qed

text \<open>
  The theorem at \<open>ex_nested\<close>, for \<open>{f: {h: A}}\<close> at 4 and \<open>{f: {k: B}, g: C}\<close> at 6, where the
  calls go two levels down: both orders return node 7, with the arcs \<open>f\<close> and \<open>g\<close>.
\<close>

theorem unify_commutes_on_fresh_trees_witness:
  "\<not> structure_sharing ex_nested \<and> fresh_tree 3 (heap ex_nested) 4 \<and>
   fresh_tree 3 (heap ex_nested) 6 \<and>
   footprint 3 (heap ex_nested) 4 \<inter> footprint 3 (heap ex_nested) 6 = {} \<and>
   \<not> is_leaf_node (heap ex_nested ! 4) \<and> \<not> is_leaf_node (heap ex_nested ! 6) \<and>
   (\<exists>t1 t2. unify 3 ex_nested 4 6 = Some (Inr (Some 7), t1) \<and>
            unify 3 ex_nested 6 4 = Some (Inr (Some 7), t2) \<and>
            node_type (heap t1 ! 7) = COMPLEX \<and> node_type (heap t2 ! 7) = COMPLEX \<and>
            name (heap t1 ! 7) = None \<and> name (heap t2 ! 7) = None \<and>
            arc_list (heap t1 ! 7) = [\<lparr>label = ''f'', val = 3\<rparr>, \<lparr>label = ''g'', val = 2\<rparr>] \<and>
            arc_list (heap t2 ! 7) = [\<lparr>label = ''f'', val = 5\<rparr>, \<lparr>label = ''g'', val = 2\<rparr>] \<and>
            set (map label (arc_list (heap t1 ! 7))) = set (map label (arc_list (heap t2 ! 7))) \<and>
            arc_list (heap t1 ! 3) = arc_list (heap ex_nested ! 3) \<and>
            arc_list (heap t2 ! 5) = arc_list (heap ex_nested ! 5))"
proof -
  have h1: "\<not> structure_sharing ex_nested" by (simp add: ex_nested_def)
  have h2: "fresh_tree 3 (heap ex_nested) 4" by code_simp
  have h3: "fresh_tree 3 (heap ex_nested) 6" by code_simp
  have h4: "footprint 3 (heap ex_nested) 4 \<inter> footprint 3 (heap ex_nested) 6 = {}"
    by code_simp
  have l4: "\<not> is_leaf_node (heap ex_nested ! 4)" and l6: "\<not> is_leaf_node (heap ex_nested ! 6)"
    by code_simp+
  have len: "length (heap ex_nested) = 7" by (simp add: ex_nested_def)
  have some: "(case unify 3 ex_nested 4 6 of Some (Inr (Some r), t) \<Rightarrow> True | _ \<Rightarrow> False)"
    by code_simp
  have nn: "unify 3 ex_nested 4 6 \<noteq> Some (Inr None, t)" for t
    using some by auto
  have n4: "node_type (heap ex_nested ! 4) = COMPLEX" "name (heap ex_nested ! 4) = None"
    and n6: "node_type (heap ex_nested ! 6) = COMPLEX" "name (heap ex_nested ! 6) = None"
    by (simp_all add: ex_nested_def DGNode_init_def)
  have a4: "arc_list (heap ex_nested ! 4) @
              complement_arcs (arc_list (heap ex_nested ! 6)) (arc_list (heap ex_nested ! 4)) =
            [\<lparr>label = ''f'', val = 3\<rparr>, \<lparr>label = ''g'', val = 2\<rparr>]"
    by (simp add: ex_nested_def DGNode_init_def complement_arcs_def)
  have a6: "arc_list (heap ex_nested ! 6) @
              complement_arcs (arc_list (heap ex_nested ! 4)) (arc_list (heap ex_nested ! 6)) =
            [\<lparr>label = ''f'', val = 5\<rparr>, \<lparr>label = ''g'', val = 2\<rparr>]"
    by (simp add: ex_nested_def DGNode_init_def complement_arcs_def)
  note th = unify_commutes_on_fresh_trees[OF h1 h2 h3 h4, of 0, unfolded add_0_right len]
  from th nn obtain t1 t2 where
    u1: "unify 3 ex_nested 4 6 = Some (Inr (Some 7), t1)"
    and u2: "unify 3 ex_nested 6 4 = Some (Inr (Some 7), t2)"
    and rest: "node_type (heap t1 ! 7) = node_type (heap ex_nested ! 4) \<and>
       name (heap t1 ! 7) = name (heap ex_nested ! 4) \<and>
       arc_list (heap t1 ! 7) =
         arc_list (heap ex_nested ! 4) @
         (if is_leaf_node (heap ex_nested ! 4) \<or> is_leaf_node (heap ex_nested ! 6) then []
          else complement_arcs (arc_list (heap ex_nested ! 6)) (arc_list (heap ex_nested ! 4))) \<and>
       node_type (heap t2 ! 7) = node_type (heap ex_nested ! 6) \<and>
       name (heap t2 ! 7) = name (heap ex_nested ! 6) \<and>
       arc_list (heap t2 ! 7) =
         arc_list (heap ex_nested ! 6) @
         (if is_leaf_node (heap ex_nested ! 6) \<or> is_leaf_node (heap ex_nested ! 4) then []
          else complement_arcs (arc_list (heap ex_nested ! 4)) (arc_list (heap ex_nested ! 6))) \<and>
       (\<not> is_leaf_node (heap ex_nested ! 4) \<and> \<not> is_leaf_node (heap ex_nested ! 6) \<longrightarrow>
          set (map label (arc_list (heap t1 ! 7))) = set (map label (arc_list (heap t2 ! 7)))) \<and>
       (\<forall>i < 7.
          node_type (heap t1 ! i) = node_type (heap ex_nested ! i) \<and>
          name (heap t1 ! i) = name (heap ex_nested ! i) \<and>
          arc_list (heap t1 ! i) = arc_list (heap ex_nested ! i) \<and>
          node_type (heap t2 ! i) = node_type (heap ex_nested ! i) \<and>
          name (heap t2 ! i) = name (heap ex_nested ! i) \<and>
          arc_list (heap t2 ! i) = arc_list (heap ex_nested ! i))"
    by blast
  have r1: "node_type (heap t1 ! 7) = COMPLEX" "name (heap t1 ! 7) = None"
    "arc_list (heap t1 ! 7) = [\<lparr>label = ''f'', val = 3\<rparr>, \<lparr>label = ''g'', val = 2\<rparr>]"
    using rest l4 l6 n4 a4 by simp_all
  have r2: "node_type (heap t2 ! 7) = COMPLEX" "name (heap t2 ! 7) = None"
    "arc_list (heap t2 ! 7) = [\<lparr>label = ''f'', val = 5\<rparr>, \<lparr>label = ''g'', val = 2\<rparr>]"
    using rest l4 l6 n6 a6 by simp_all
  have lab: "set (map label (arc_list (heap t1 ! 7))) = set (map label (arc_list (heap t2 ! 7)))"
    using rest l4 l6 by blast
  have keep: "\<forall>i < 7. arc_list (heap t1 ! i) = arc_list (heap ex_nested ! i) \<and>
                      arc_list (heap t2 ! i) = arc_list (heap ex_nested ! i)"
    using rest by blast
  have k3: "arc_list (heap t1 ! 3) = arc_list (heap ex_nested ! 3)"
    and k5: "arc_list (heap t2 ! 5) = arc_list (heap ex_nested ! 5)"
    using keep by simp_all
  show ?thesis
    using h1 h2 h3 h4 l4 l6 u1 u2 r1 r2 lab k3 k5 by blast
qed

text \<open>
  C4 as the claim words it fails three times. On \<open>ex_dag\<close>, \<open>unify\<close> of node 3 with node 4
  returns \<open>None\<close> and \<open>unify\<close> of node 4 with node 3 returns a node: the loop follows the
  arcs of the second operand, and a leaf met first with a complex node is forwarded to it
  and no longer clashes. On \<open>ex_disjoint\<close>, \<open>unify\<close> of the leaf 1 with the complex node 2
  returns a leaf and \<open>unify\<close> of node 2 with the leaf returns a complex node with the arc
  \<open>f\<close>: the result is a copy of the first operand. On \<open>ex_nested\<close>, both orders succeed, but
  under the label \<open>f\<close> one result has the node \<open>{h: A}\<close> and the other the node \<open>{k: B}\<close>:
  the result has the children of the first operand as they are.
\<close>

theorem commutativity_counterexample:
  "(case unify 3 ex_dag 3 4 of Some (Inr None, t) \<Rightarrow> True | _ \<Rightarrow> False) \<and>
   (case unify 3 ex_dag 4 3 of Some (Inr (Some r), t) \<Rightarrow> True | _ \<Rightarrow> False) \<and>
   (case unify 1 ex_disjoint 1 2 of
      Some (Inr (Some r1), t1) \<Rightarrow>
        (case unify 1 ex_disjoint 2 1 of
           Some (Inr (Some r2), t2) \<Rightarrow>
             node_type (heap t1 ! r1) = LEAF \<and> arc_list (heap t1 ! r1) = [] \<and>
             node_type (heap t2 ! r2) = COMPLEX \<and>
             arc_list (heap t2 ! r2) = [\<lparr>label = ''f'', val = 0\<rparr>]
         | _ \<Rightarrow> False)
    | _ \<Rightarrow> False) \<and>
   (case unify 3 ex_nested 4 6 of
      Some (Inr (Some r1), t1) \<Rightarrow>
        (case unify 3 ex_nested 6 4 of
           Some (Inr (Some r2), t2) \<Rightarrow>
             (case find_arc ''f'' (arc_list (heap t1 ! r1)) of
                Some c1 \<Rightarrow>
                  (case find_arc ''f'' (arc_list (heap t2 ! r2)) of
                     Some c2 \<Rightarrow>
                       map label (arc_list (heap t1 ! val c1)) = [''h''] \<and>
                       map label (arc_list (heap t2 ! val c2)) = [''k'']
                   | None \<Rightarrow> False)
              | None \<Rightarrow> False)
         | _ \<Rightarrow> False)
    | _ \<Rightarrow> False)"
  by code_simp

end
